theory Spec2Isabelle
  imports Main
begin

section \<open>JavaScript string primitives used by \<open>server.js\<close>\<close>

text \<open>
  Strings are lists of code units. The header values and names handled here are read as
  code units below 256, one \<^typ>\<open>char\<close> each.
\<close>

text \<open>\<open>s.split(c)\<close> for a one-character separator: never empty, \<open>"".split(",")\<close> is \<open>[""]\<close>.\<close>

fun split_on :: "char \<Rightarrow> string \<Rightarrow> string list" where
  "split_on c [] = [[]]"
| "split_on c (x # xs) =
     (if x = c then [] # split_on c xs
      else (case split_on c xs of [] \<Rightarrow> [[x]] | p # ps \<Rightarrow> (x # p) # ps))"

text \<open>
  The characters \<open>String.prototype.trim\<close> removes, among the code units below 256:
  TAB, LF, VT, FF, CR, SPACE and NBSP.
\<close>

definition is_space :: "char \<Rightarrow> bool" where
  "is_space c = (c \<in> set [CHR 0x09, CHR 0x0A, CHR 0x0B, CHR 0x0C, CHR 0x0D, CHR 0x20, CHR 0xA0])"

definition trim :: "string \<Rightarrow> string" where
  "trim s = rev (dropWhile is_space (rev (dropWhile is_space s)))"

text \<open>\<open>s.slice(1, -1)\<close>: the string without its first and its last code unit, empty when
  \<open>s\<close> has at most two.\<close>

definition slice_1_m1 :: "string \<Rightarrow> string" where
  "slice_1_m1 s = butlast (tl s)"

fun starts_with :: "string \<Rightarrow> string \<Rightarrow> bool" where
  "starts_with [] s = True"
| "starts_with (p # ps) [] = False"
| "starts_with (p # ps) (c # cs) = (p = c \<and> starts_with ps cs)"

text \<open>A regular expression that is a plain literal, as \<open>/rel="next"/\<close> is: \<open>test\<close> searches
  the literal anywhere in the subject.\<close>

fun includes_lit :: "string \<Rightarrow> string \<Rightarrow> bool" where
  "includes_lit pat [] = (pat = [])"
| "includes_lit pat (c # cs) = (starts_with pat (c # cs) \<or> includes_lit pat cs)"

definition rel_next_regex :: string where
  "rel_next_regex = ''rel='' @ [CHR 0x22] @ ''next'' @ [CHR 0x22]"

text \<open>\<open>/rel="next"/.test(relPart)\<close>: an \<open>undefined\<close> subject is converted to the string
  \<open>"undefined"\<close> first.\<close>

definition regex_test :: "string option \<Rightarrow> bool" where
  "regex_test relPart =
     includes_lit rel_next_regex (case relPart of None \<Rightarrow> ''undefined'' | Some r \<Rightarrow> r)"

text \<open>\<open>s.replace(/[\/\\]/g, "_")\<close>\<close>

definition replace_separators :: "string \<Rightarrow> string" where
  "replace_separators s = map (\<lambda>c. if c = CHR ''/'' \<or> c = CHR 0x5C then CHR ''_'' else c) s"

section \<open>Link-header pagination parser\<close>

text \<open>The \<open>for (const part of linkHeader.split(","))\<close> loop of \<open>getNextPage\<close>.
  \<open>const [urlPart, relPart] = part.trim().split(";")\<close> leaves \<open>relPart\<close> undefined when
  the part has no semicolon.\<close>

fun getNextPage_parts :: "string list \<Rightarrow> string option" where
  "getNextPage_parts [] = None"
| "getNextPage_parts (part # parts) =
     (case split_on CHR '';'' (trim part) of
        [] \<Rightarrow> getNextPage_parts parts
      | [urlPart] \<Rightarrow>
          if regex_test None then Some (slice_1_m1 (trim urlPart))
          else getNextPage_parts parts
      | urlPart # relPart # _ \<Rightarrow>
          if regex_test (Some relPart) then Some (slice_1_m1 (trim urlPart))
          else getNextPage_parts parts)"

text \<open>\<open>getNextPage(linkHeader)\<close>; \<open>None\<close> is \<open>null\<close>, and \<open>!linkHeader\<close> holds for \<open>null\<close>
  and for the empty string.\<close>

definition getNextPage :: "string option \<Rightarrow> string option" where
  "getNextPage linkHeader =
     (case linkHeader of
        None \<Rightarrow> None
      | Some h \<Rightarrow> if h = [] then None else getNextPage_parts (split_on CHR '','' h))"

section \<open>Upstream requests and responses\<close>

text \<open>What a rejected promise or a thrown exception carries.\<close>

datatype error =
    Thrown string
  | EnrollmentFetchFailed nat
  | CourseMetadataFetchFailed int nat

text \<open>The upstream requests the server issues, in the order it issues them.\<close>

datatype request =
    GetEnrollments string
  | GetCourse int
  | GetModules string
  | GetFile nat
  | GetBody string
  | GetSyllabus string
  | GetPages string
  | GetPageAttachments string string
  | GetAssignments string
  | GetSubmissions string int

text \<open>A response as \<open>fetchAllCourses\<close> reads it: the status, the \<open>Link\<close> header
  (\<open>None\<close> when absent) and what \<open>resp.json()\<close> resolves to or throws.\<close>

record 'a response =
  status :: nat
  link :: "string option"
  json :: "error + 'a"

text \<open>\<open>resp.ok\<close>\<close>

definition ok :: "'a response \<Rightarrow> bool" where
  "ok resp = (200 \<le> status resp \<and> status resp < 300)"

record enrollment =
  course_id :: int

record term_info =
  term_name :: "string option"
  start_at :: "string option"
  end_at :: "string option"

record course_json =
  cj_id :: int
  cj_name :: string
  cj_course_code :: string
  cj_term :: "term_info option"
  cj_published :: bool

record course =
  c_id :: int
  c_name :: string
  c_course_code :: string
  c_term :: term_info
  c_published :: bool

text \<open>The upstream API as the catalog build sees it: \<open>fetch\<close> of an enrollment page by its URL,
  and of a course's metadata by its id. \<open>Inl\<close> is a rejected \<open>fetch\<close>.\<close>

record catalog_api =
  enroll_fetch :: "string \<Rightarrow> error + enrollment list response"
  course_fetch :: "int \<Rightarrow> error + course_json response"

section \<open>\<open>fetchAllCourses\<close>\<close>

text \<open>The \<open>while (next)\<close> loop: the loop ends on \<open>null\<close> and on the empty string, a page
  that is not \<open>ok\<close> throws. \<open>headers.get\<close> ignores the case of the header's name, so both
  operands of \<open>||\<close> read the one \<open>link\<close> of the response. The loop runs for as long as the upstream keeps naming a next
  page, so it is a partial function: \<open>None\<close> is a run that never returns.\<close>

partial_function (option) enrollments_loop ::
  "(string \<Rightarrow> error + enrollment list response) \<Rightarrow> string option \<Rightarrow> enrollment list \<Rightarrow>
   request list \<Rightarrow> (request list \<times> (error + enrollment list)) option" where
  "enrollments_loop fetch nxt enrollments trace =
     (case nxt of
        None \<Rightarrow> Some (trace, Inr enrollments)
      | Some url \<Rightarrow>
          if url = [] then Some (trace, Inr enrollments)
          else (case fetch url of
                  Inl e \<Rightarrow> Some (trace @ [GetEnrollments url], Inl e)
                | Inr resp \<Rightarrow>
                    if \<not> ok resp
                    then Some (trace @ [GetEnrollments url], Inl (EnrollmentFetchFailed (status resp)))
                    else (case json resp of
                            Inl e \<Rightarrow> Some (trace @ [GetEnrollments url], Inl e)
                          | Inr batch \<Rightarrow>
                              enrollments_loop fetch (getNextPage (link resp))
                                (enrollments @ batch) (trace @ [GetEnrollments url]))))"

text \<open>\<open>[...new Set(xs)]\<close>: a \<open>Set\<close> keeps its elements in insertion order, and adding an
  element it already has changes nothing.\<close>

definition Set_add :: "'a list \<Rightarrow> 'a \<Rightarrow> 'a list" where
  "Set_add s x = (if x \<in> set s then s else s @ [x])"

definition new_Set :: "'a list \<Rightarrow> 'a list" where
  "new_Set xs = foldl Set_add [] xs"

record catalog_state =
  trace :: "request list"
  warnings :: "error list"
  courses :: "course list"

definition empty_term :: term_info where
  "empty_term = \<lparr>term_name = None, start_at = None, end_at = None\<rparr>"

definition course_of_json :: "course_json \<Rightarrow> course" where
  "course_of_json c =
     \<lparr>c_id = cj_id c, c_name = cj_name c, c_course_code = cj_course_code c,
      c_term = (case cj_term c of None \<Rightarrow> empty_term | Some t \<Rightarrow> t),
      c_published = cj_published c\<rparr>"

text \<open>The \<open>for (const id of uniqueIds)\<close> loop. Its body is one \<open>try\<close> block whose \<open>catch\<close>
  passes the exception to \<open>console.warn\<close>: a rejected fetch, the \<open>throw\<close> for a status that
  is neither 403 nor 404, and a body that fails to parse all end there, and the loop goes
  on with the next id.\<close>

fun course_loop :: "catalog_api \<Rightarrow> int list \<Rightarrow> catalog_state \<Rightarrow> catalog_state" where
  "course_loop api [] st = st"
| "course_loop api (i # ids) st =
     (let st1 = st\<lparr>trace := trace st @ [GetCourse i]\<rparr> in
      case course_fetch api i of
        Inl e \<Rightarrow> course_loop api ids (st1\<lparr>warnings := warnings st1 @ [e]\<rparr>)
      | Inr cr \<Rightarrow>
          if \<not> ok cr then
            (if status cr = 403 \<or> status cr = 404 then course_loop api ids st1
             else course_loop api ids
                    (st1\<lparr>warnings := warnings st1 @ [CourseMetadataFetchFailed i (status cr)]\<rparr>))
          else (case json cr of
                  Inl e \<Rightarrow> course_loop api ids (st1\<lparr>warnings := warnings st1 @ [e]\<rparr>)
                | Inr c \<Rightarrow> course_loop api ids (st1\<lparr>courses := courses st1 @ [course_of_json c]\<rparr>)))"

text \<open>\<open>fetchAllCourses\<close>, with \<open>enrollUrl.toString()\<close> as a parameter. The result is the
  requests issued, the warnings logged, and the returned courses or the thrown error.\<close>

definition fetchAllCourses ::
  "catalog_api \<Rightarrow> string \<Rightarrow> (request list \<times> error list \<times> (error + course list)) option" where
  "fetchAllCourses api enrollUrl =
     (case enrollments_loop (enroll_fetch api) (Some enrollUrl) [] [] of
        None \<Rightarrow> None
      | Some (tr, Inl e) \<Rightarrow> Some (tr, [], Inl e)
      | Some (tr, Inr enrollments) \<Rightarrow>
          (let uniqueIds = new_Set (map course_id enrollments);
               st = course_loop api uniqueIds \<lparr>trace = tr, warnings = [], courses = []\<rparr>
           in Some (trace st, warnings st, Inr (courses st))))"

text \<open>\<open>GET /api/courses\<close>\<close>

datatype courses_reply = Json200 "course list" | Json500 error

definition api_courses :: "catalog_api \<Rightarrow> string \<Rightarrow> courses_reply option" where
  "api_courses api enrollUrl =
     (case fetchAllCourses api enrollUrl of
        None \<Rightarrow> None
      | Some (tr, ws, Inl err) \<Rightarrow> Some (Json500 err)
      | Some (tr, ws, Inr all) \<Rightarrow> Some (Json200 all))"

section \<open>The SSE progress channel\<close>

text \<open>What the server writes to an event-stream response: the newline that opens the
  stream, a \<open>progress\<close> event (its two \<open>write\<close> calls follow each other with nothing
  between them; the payload \<open>{done, total, message}\<close> is kept as its three fields), and the
  \<open>done\<close> event.\<close>

datatype chunk = Newline | ProgressEvent nat nat string | DoneEvent

text \<open>\<open>sseClients\<close> maps a download id to the response registered for it. A response is
  named by the number under which it was opened; \<open>written\<close> lists the chunks written to
  the responses, oldest first, \<open>ended\<close> the responses the server has ended.\<close>

record sse_state =
  sseClients :: "string \<rightharpoonup> nat"
  written :: "(nat \<times> chunk) list"
  ended :: "nat list"
  opened :: nat

text \<open>\<open>GET /download/events\<close>: a missing or empty \<open>downloadId\<close> is answered with 400 and
  registers nothing.\<close>

definition download_events :: "string option \<Rightarrow> sse_state \<Rightarrow> sse_state" where
  "download_events downloadId s =
     (case downloadId of
        None \<Rightarrow> s
      | Some d \<Rightarrow>
          if d = [] then s
          else s\<lparr>sseClients := (sseClients s)(d \<mapsto> opened s),
                 written := written s @ [(opened s, Newline)],
                 opened := opened s + 1\<rparr>)"

text \<open>The \<open>close\<close> listener of that request: \<open>sseClients.delete(downloadId)\<close>.\<close>

definition events_close :: "string \<Rightarrow> sse_state \<Rightarrow> sse_state" where
  "events_close downloadId s = s\<lparr>sseClients := (sseClients s)(downloadId := None)\<rparr>"

definition sendProgress :: "string \<Rightarrow> nat \<Rightarrow> nat \<Rightarrow> string \<Rightarrow> sse_state \<Rightarrow> sse_state" where
  "sendProgress i dn tot message s =
     (case sseClients s i of
        None \<Rightarrow> s
      | Some client \<Rightarrow> s\<lparr>written := written s @ [(client, ProgressEvent dn tot message)]\<rparr>)"

text \<open>What reaches the server while a download handler is suspended in an \<open>await\<close>: a
  progress channel is opened, a progress channel's connection closes, or the caller aborts
  the download connection. \<open>app.post("/download")\<close> registers no listener on its request or
  response, so the last one runs no code of the server.\<close>

datatype event = EventsOpen string | EventsClose string | DownloadAborted

fun apply_event :: "sse_state \<Rightarrow> event \<Rightarrow> sse_state" where
  "apply_event s (EventsOpen d) = download_events (Some d) s"
| "apply_event s (EventsClose d) = events_close d s"
| "apply_event s DownloadAborted = s"

text \<open>The surroundings of one download: \<open>arrivals n\<close> are the events whose listeners run
  while the handler waits for its \<open>n\<close>-th upstream request (counted from 0; the one after
  the last request is the wait for the archive's \<open>end\<close>), and \<open>archive_ends\<close> tells whether
  the archive stream emits \<open>end\<close> after \<open>finalize\<close>.\<close>

record env =
  arrivals :: "nat \<Rightarrow> event list"
  archive_ends :: bool

section \<open>\<open>POST /download\<close>\<close>

text \<open>The upstream's JSON, decoded to the properties the handler reads. A property that is
  only interpolated into a URL or a path is a string (\<open>undefined\<close> for a missing one), or a
  number where it is an id; a property the handler dereferences, iterates or hands to
  \<open>fetch\<close> is optional, \<open>None\<close> standing for every value on which that use throws. An
  element of a listing may be \<open>null\<close> instead of an object: the first read of a property
  of it throws, and it is the element whose first property read is \<open>None\<close>.\<close>

text \<open>\<open>item_type\<close> is \<open>None\<close> when \<open>item.type\<close> throws, the item being \<open>null\<close>, and else the
  value compared with \<open>"File"\<close>; \<open>content_id\<close> is \<open>None\<close> when the item has none.\<close>

record item =
  item_type :: "string option"
  content_id :: "nat option"

text \<open>\<open>mod_name\<close> is \<open>None\<close> when \<open>m.name\<close> is not a string (or \<open>m\<close> is \<open>null\<close>), so that
  \<open>m.name.replace\<close> throws; \<open>mod_items\<close> is \<open>None\<close> when \<open>m.items\<close> cannot be iterated, as when
  the upstream leaves the items of a large module out.\<close>

record module =
  mod_name :: "string option"
  mod_items :: "item list option"

text \<open>\<open>file_url\<close> and \<open>att_url\<close> are \<open>None\<close> when \<open>url\<close> is nothing that \<open>fetch\<close> takes for a URL
  (missing, no string, not absolute) or the attachment is \<open>null\<close>: \<open>fetch\<close> then rejects
  without a request.\<close>

record file_meta =
  file_url :: "string option"
  display_name :: string

record attachment =
  att_url :: "string option"
  att_filename :: string

text \<open>\<open>page_title\<close> is \<open>None\<close> when \<open>p.title\<close> is not a string (or \<open>p\<close> is \<open>null\<close>).\<close>

record page =
  page_title :: "string option"
  page_url :: string

text \<open>\<open>asg_id\<close> is \<open>None\<close> when \<open>a.id\<close> throws, the assignment being \<open>null\<close>.\<close>

record assignment =
  asg_id :: "int option"
  asg_name :: string

text \<open>The \<open>attachments\<close> of a submission: missing or otherwise falsy; truthy but nothing
  that \<open>for ... of\<close> can iterate; or a list.\<close>

datatype attachments_value = NoAttachments | NotIterable | Attachments "attachment list"

record submission =
  sub_attachments :: attachments_value

text \<open>The answer to the request for a file's bytes: \<open>fetch(url).then((r) => r.body)\<close> takes
  the body of the response whatever its status.\<close>

record body_answer =
  b_status :: nat
  b_bytes :: string

text \<open>The upstream API as the download handler uses it. Each field is one \<open>fetch\<close> together
  with the handler's reading of the response (\<open>.json()\<close>, or \<open>.then((r) => r.body)\<close> for a
  file's bytes). \<open>Inl\<close> is whatever makes the handler throw there: a rejected \<open>fetch\<close>, a
  body that does not parse, a listing that cannot be iterated (the loop over it follows
  at once). The handler never looks at \<open>ok\<close> or \<open>status\<close>, so an answer with an error status
  is an \<open>Inr\<close> like any other, as long as the handler can read it.\<close>

record upstream =
  modules_fetch :: "string \<Rightarrow> error + module list"
  file_fetch :: "nat \<Rightarrow> error + file_meta"
  body_fetch :: "string \<Rightarrow> error + body_answer"
  syllabus_fetch :: "string \<Rightarrow> error + attachment list"
  pages_fetch :: "string \<Rightarrow> error + page list"
  page_attachments_fetch :: "string \<Rightarrow> string \<Rightarrow> error + attachment list"
  assignments_fetch :: "string \<Rightarrow> error + assignment list"
  submissions_fetch :: "string \<Rightarrow> int \<Rightarrow> error + submission list"

record selections =
  sel_modules :: "string list"
  sel_syllabus :: "string list"
  sel_pages :: "string list"
  sel_submissions :: "string list"

text \<open>The handler's variables: \<open>done\<close>, the entries appended to the archive (name and
  bytes), the upstream requests issued so far, and the progress channels.\<close>

record job =
  jdone :: nat
  archive :: "(string \<times> string) list"
  fetched :: "request list"
  sse :: sse_state

text \<open>An \<open>await fetch(...)\<close>: the request is issued, and the listeners of the events that
  arrive meanwhile run before the handler resumes.\<close>

definition await_fetch :: "env \<Rightarrow> request \<Rightarrow> job \<Rightarrow> job" where
  "await_fetch ev rq j =
     j\<lparr>fetched := fetched j @ [rq],
       sse := foldl apply_event (sse j) (arrivals ev (length (fetched j)))\<rparr>"

definition archive_append :: "string \<Rightarrow> string \<Rightarrow> job \<Rightarrow> job" where
  "archive_append name stream j = j\<lparr>archive := archive j @ [(name, stream)]\<rparr>"

text \<open>\<open>done++; sendProgress(downloadId, done, total, message)\<close>\<close>

definition progress :: "string \<Rightarrow> nat \<Rightarrow> string \<Rightarrow> job \<Rightarrow> job" where
  "progress downloadId tot message j =
     j\<lparr>jdone := jdone j + 1,
       sse := sendProgress downloadId (jdone j + 1) tot message (sse j)\<rparr>"

text \<open>A \<open>for (const x of xs)\<close> loop inside the \<open>async\<close> handler, which has no \<open>try\<close>: an
  exception in the body leaves the loop and every loop around it. \<open>Some e\<close> is the
  exception, with the state reached when it was thrown.\<close>

fun for_of :: "('a \<Rightarrow> job \<Rightarrow> error option \<times> job) \<Rightarrow> 'a list \<Rightarrow> job \<Rightarrow> error option \<times> job" where
  "for_of body [] j = (None, j)"
| "for_of body (x # xs) j =
     (case body x j of
        (Some e, j') \<Rightarrow> (Some e, j')
      | (None, j') \<Rightarrow> for_of body xs j')"

text \<open>What \<open>fetch\<close> rejects with when its argument is not a URL, and what a property access
  or a call on \<open>undefined\<close> throws.\<close>

definition invalid_url :: error where
  "invalid_url = Thrown ''TypeError: Invalid URL''"

definition type_error :: error where
  "type_error = Thrown ''TypeError''"

text \<open>An attachment of the syllabus, of a page or of a submission: its URL is fetched and
  the bytes are appended under \<open>folder/filename\<close>.\<close>

definition attachment_step :: "env \<Rightarrow> upstream \<Rightarrow> string \<Rightarrow> attachment \<Rightarrow> job \<Rightarrow> error option \<times> job" where
  "attachment_step ev up folder a j =
     (case att_url a of
        None \<Rightarrow> (Some invalid_url, j)
      | Some url \<Rightarrow>
          (let j1 = await_fetch ev (GetBody url) j in
           case body_fetch up url of
             Inl e \<Rightarrow> (Some e, j1)
           | Inr r \<Rightarrow> (None, archive_append (folder @ ''/'' @ att_filename a) (b_bytes r) j1)))"

text \<open>The request for a file's metadata and then for its bytes, which are appended under
  \<open>courseId/Modules/safeMod/display_name\<close>.\<close>

definition module_file :: "env \<Rightarrow> upstream \<Rightarrow> string \<Rightarrow> string \<Rightarrow> nat \<Rightarrow> job \<Rightarrow> error option \<times> job" where
  "module_file ev up courseId safeMod cid j =
     (let j1 = await_fetch ev (GetFile cid) j in
      case file_fetch up cid of
        Inl e \<Rightarrow> (Some e, j1)
      | Inr meta \<Rightarrow>
          (case file_url meta of
             None \<Rightarrow> (Some invalid_url, j1)
           | Some url \<Rightarrow>
               (let j2 = await_fetch ev (GetBody url) j1 in
                case body_fetch up url of
                  Inl e \<Rightarrow> (Some e, j2)
                | Inr r \<Rightarrow>
                    (None, archive_append
                             (courseId @ ''/Modules/'' @ safeMod @ ''/'' @ display_name meta)
                             (b_bytes r) j2))))"

text \<open>Modules: the body of \<open>for (const item of m.items)\<close>. \<open>item.content_id\<close> is falsy
  when it is missing and when it is 0.\<close>

definition module_item :: "env \<Rightarrow> upstream \<Rightarrow> string \<Rightarrow> string \<Rightarrow> item \<Rightarrow> job \<Rightarrow> error option \<times> job" where
  "module_item ev up courseId safeMod it j =
     (case item_type it of
        None \<Rightarrow> (Some type_error, j)
      | Some ty \<Rightarrow>
          (case content_id it of
             None \<Rightarrow> (None, j)
           | Some cid \<Rightarrow>
               if ty = ''File'' \<and> cid \<noteq> 0 then module_file ev up courseId safeMod cid j
               else (None, j)))"

text \<open>The body of \<open>for (const m of modules)\<close>: \<open>m.name.replace(...)\<close> throws for a module
  without a string name, then \<open>for (const item of m.items)\<close> throws for one whose items
  cannot be iterated.\<close>

definition module_step :: "env \<Rightarrow> upstream \<Rightarrow> string \<Rightarrow> module \<Rightarrow> job \<Rightarrow> error option \<times> job" where
  "module_step ev up courseId m j =
     (case mod_name m of
        None \<Rightarrow> (Some type_error, j)
      | Some name \<Rightarrow>
          (let safeMod = replace_separators name in
           case mod_items m of
             None \<Rightarrow> (Some type_error, j)
           | Some items \<Rightarrow> for_of (module_item ev up courseId safeMod) items j))"

text \<open>The body of \<open>for (const courseId of selections.modules)\<close>\<close>

definition modules_unit :: "env \<Rightarrow> upstream \<Rightarrow> string \<Rightarrow> nat \<Rightarrow> string \<Rightarrow> job \<Rightarrow> error option \<times> job" where
  "modules_unit ev up downloadId tot courseId j =
     (let j1 = await_fetch ev (GetModules courseId) j in
      case modules_fetch up courseId of
        Inl e \<Rightarrow> (Some e, j1)
      | Inr modules \<Rightarrow>
          (case for_of (module_step ev up courseId) modules j1 of
             (Some e, j2) \<Rightarrow> (Some e, j2)
           | (None, j2) \<Rightarrow> (None, progress downloadId tot (''Modules for '' @ courseId) j2)))"

text \<open>The body of \<open>for (const courseId of selections.syllabus)\<close>\<close>

definition syllabus_unit :: "env \<Rightarrow> upstream \<Rightarrow> string \<Rightarrow> nat \<Rightarrow> string \<Rightarrow> job \<Rightarrow> error option \<times> job" where
  "syllabus_unit ev up downloadId tot courseId j =
     (let j1 = await_fetch ev (GetSyllabus courseId) j in
      case syllabus_fetch up courseId of
        Inl e \<Rightarrow> (Some e, j1)
      | Inr atts \<Rightarrow>
          (case for_of (attachment_step ev up (courseId @ ''/Syllabus'')) atts j1 of
             (Some e, j2) \<Rightarrow> (Some e, j2)
           | (None, j2) \<Rightarrow> (None, progress downloadId tot (''Syllabus for '' @ courseId) j2)))"

text \<open>Pages: the body of \<open>for (const p of pages)\<close>. \<open>p.title.replace(...)\<close> comes first and
  throws for a page without a string title.\<close>

definition page_step :: "env \<Rightarrow> upstream \<Rightarrow> string \<Rightarrow> page \<Rightarrow> job \<Rightarrow> error option \<times> job" where
  "page_step ev up courseId p j =
     (case page_title p of
        None \<Rightarrow> (Some type_error, j)
      | Some title \<Rightarrow>
          (let safeTitle = replace_separators title;
               j1 = await_fetch ev (GetPageAttachments courseId (page_url p)) j in
           case page_attachments_fetch up courseId (page_url p) of
             Inl e \<Rightarrow> (Some e, j1)
           | Inr atts \<Rightarrow>
               for_of (attachment_step ev up (courseId @ ''/Pages/'' @ safeTitle)) atts j1))"

text \<open>The body of \<open>for (const courseId of selections.pages)\<close>\<close>

definition pages_unit :: "env \<Rightarrow> upstream \<Rightarrow> string \<Rightarrow> nat \<Rightarrow> string \<Rightarrow> job \<Rightarrow> error option \<times> job" where
  "pages_unit ev up downloadId tot courseId j =
     (let j1 = await_fetch ev (GetPages courseId) j in
      case pages_fetch up courseId of
        Inl e \<Rightarrow> (Some e, j1)
      | Inr pages \<Rightarrow>
          (case for_of (page_step ev up courseId) pages j1 of
             (Some e, j2) \<Rightarrow> (Some e, j2)
           | (None, j2) \<Rightarrow> (None, progress downloadId tot (''Pages for '' @ courseId) j2)))"

text \<open>Submissions: the body of \<open>for (const a of asgs)\<close>. Only \<open>subs[0]\<close> is read, and only
  when it has \<open>attachments\<close>; the assignment's name goes into the path as it is.\<close>

definition assignment_step :: "env \<Rightarrow> upstream \<Rightarrow> string \<Rightarrow> assignment \<Rightarrow> job \<Rightarrow> error option \<times> job" where
  "assignment_step ev up courseId a j =
     (case asg_id a of
        None \<Rightarrow> (Some type_error, j)
      | Some aid \<Rightarrow>
          (let j1 = await_fetch ev (GetSubmissions courseId aid) j in
           case submissions_fetch up courseId aid of
             Inl e \<Rightarrow> (Some e, j1)
           | Inr subs \<Rightarrow>
               (case subs of
                  [] \<Rightarrow> (None, j1)
                | sub # _ \<Rightarrow>
                    (case sub_attachments sub of
                       NoAttachments \<Rightarrow> (None, j1)
                     | NotIterable \<Rightarrow> (Some type_error, j1)
                     | Attachments atts \<Rightarrow>
                         for_of (attachment_step ev up (courseId @ ''/Submissions/'' @ asg_name a))
                           atts j1))))"

text \<open>The body of \<open>for (const courseId of selections.submissions)\<close>\<close>

definition submissions_unit :: "env \<Rightarrow> upstream \<Rightarrow> string \<Rightarrow> nat \<Rightarrow> string \<Rightarrow> job \<Rightarrow> error option \<times> job" where
  "submissions_unit ev up downloadId tot courseId j =
     (let j1 = await_fetch ev (GetAssignments courseId) j in
      case assignments_fetch up courseId of
        Inl e \<Rightarrow> (Some e, j1)
      | Inr asgs \<Rightarrow>
          (case for_of (assignment_step ev up courseId) asgs j1 of
             (Some e, j2) \<Rightarrow> (Some e, j2)
           | (None, j2) \<Rightarrow> (None, progress downloadId tot (''Submissions for '' @ courseId) j2)))"

text \<open>The listener of the archive's \<open>end\<close> event.\<close>

definition on_end :: "string \<Rightarrow> sse_state \<Rightarrow> sse_state" where
  "on_end downloadId s =
     (case sseClients s downloadId of
        None \<Rightarrow> s
      | Some client \<Rightarrow>
          s\<lparr>written := written s @ [(client, DoneEvent)],
            ended := ended s @ [client],
            sseClients := (sseClients s)(downloadId := None)\<rparr>)"

text \<open>\<open>archive.finalize()\<close> and what follows it: the events that arrive while the archive
  drains, then the \<open>end\<close> listener if the archive emits \<open>end\<close>.\<close>

definition finalize :: "env \<Rightarrow> string \<Rightarrow> job \<Rightarrow> job" where
  "finalize ev downloadId j =
     (let s = foldl apply_event (sse j) (arrivals ev (length (fetched j)))
      in j\<lparr>sse := (if archive_ends ev then on_end downloadId s else s)\<rparr>)"

text \<open>How a download request ends: answered with status 400; or the handler's promise is
  rejected with the thrown error, the archive never finalized; or the archive is finalized.\<close>

datatype download_result = Status400 | Threw error job | Finalized job

definition total_of :: "selections \<Rightarrow> nat" where
  "total_of sel =
     length (sel_modules sel) + length (sel_syllabus sel) + length (sel_pages sel) +
     length (sel_submissions sel)"

text \<open>\<open>app.post("/download")\<close>, for a request whose body carries the four lists of
  \<open>selections\<close>. \<open>!downloadId\<close> holds for a missing and for an empty query parameter.\<close>

definition download :: "env \<Rightarrow> upstream \<Rightarrow> string option \<Rightarrow> selections \<Rightarrow> sse_state \<Rightarrow> download_result" where
  "download ev up downloadId sel s =
     (case downloadId of
        None \<Rightarrow> Status400
      | Some d \<Rightarrow>
          if d = [] \<or> sseClients s d = None then Status400
          else
            (let tot = total_of sel;
                 j0 = \<lparr>jdone = 0, archive = [], fetched = [], sse = s\<rparr> in
             case for_of (modules_unit ev up d tot) (sel_modules sel) j0 of
               (Some e, j) \<Rightarrow> Threw e j
             | (None, j1) \<Rightarrow>
             (case for_of (syllabus_unit ev up d tot) (sel_syllabus sel) j1 of
               (Some e, j) \<Rightarrow> Threw e j
             | (None, j2) \<Rightarrow>
             (case for_of (pages_unit ev up d tot) (sel_pages sel) j2 of
               (Some e, j) \<Rightarrow> Threw e j
             | (None, j3) \<Rightarrow>
             (case for_of (submissions_unit ev up d tot) (sel_submissions sel) j3 of
               (Some e, j) \<Rightarrow> Threw e j
             | (None, j4) \<Rightarrow> Finalized (finalize ev d j4))))))"

section \<open>The browser client's download button\<close>

text \<open>The guard of \<open>downloadBtn.onclick\<close>: with no checkbox checked the client alerts and
  returns before it opens a progress channel or posts the request.\<close>

definition downloadBtn_refuses :: "selections \<Rightarrow> bool" where
  "downloadBtn_refuses sel =
     (sel_modules sel = [] \<and> sel_syllabus sel = [] \<and> sel_pages sel = [] \<and>
      sel_submissions sel = [])"

text \<open>What the client's cancel button causes at the server: \<open>controller.abort()\<close> closes the
  download connection, and the \<open>finally\<close> of the request closes the event source.\<close>

definition cancel_events :: "string \<Rightarrow> event list" where
  "cancel_events downloadId = [DownloadAborted, EventsClose downloadId]"

section \<open>The Link header as the specification describes it\<close>

text \<open>The specification's words for the header: a comma-separated list of entries
  \<open><url>; rel="name"\<close>. The definitions of this section follow those words, to be compared
  with the parser above; \<open>sp\<close> is the white space after each comma.\<close>

definition spec_link_entry :: "string \<times> string \<Rightarrow> string" where
  "spec_link_entry e = ''<'' @ fst e @ ''>; rel='' @ [CHR 0x22] @ snd e @ [CHR 0x22]"

fun spec_link_header :: "string \<Rightarrow> (string \<times> string) list \<Rightarrow> string" where
  "spec_link_header sp [] = []"
| "spec_link_header sp [e] = spec_link_entry e"
| "spec_link_header sp (e # e' # es) = spec_link_entry e @ '','' @ sp @ spec_link_header sp (e' # es)"

text \<open>The URL of the first entry whose relation is \<open>next\<close>.\<close>

definition spec_rel_next :: "(string \<times> string) list \<Rightarrow> string option" where
  "spec_rel_next es = map_option fst (find (\<lambda>e. snd e = ''next'') es)"

text \<open>An entry the format can carry: no comma or semicolon inside the URL or the relation
  name, no quote inside the name.\<close>

definition wf_entry :: "string \<times> string \<Rightarrow> bool" where
  "wf_entry e =
     (CHR '','' \<notin> set (fst e) \<and> CHR '';'' \<notin> set (fst e) \<and>
      CHR '','' \<notin> set (snd e) \<and> CHR '';'' \<notin> set (snd e) \<and> CHR 0x22 \<notin> set (snd e))"

text \<open>An upstream that serves the listing as a chain of pages: \<open>url\<close> answers with the first
  page, \<open>ok\<close>, its body the page's records and its Link header the page's entries, whose
  \<open>next\<close> entry names the URL of the rest of the chain; the last page has no \<open>next\<close> entry.\<close>

fun spec_page_chain ::
  "(string \<Rightarrow> error + enrollment list response) \<Rightarrow> string \<Rightarrow> string \<Rightarrow>
   ((string \<times> string) list \<times> enrollment list) list \<Rightarrow> bool" where
  "spec_page_chain fetch sp url [] = False"
| "spec_page_chain fetch sp url ((es, batch) # rest) =
     (url \<noteq> [] \<and> (\<forall>e\<in>set es. wf_entry e) \<and>
      (case fetch url of
         Inl _ \<Rightarrow> False
       | Inr resp \<Rightarrow>
           ok resp \<and> json resp = Inr batch \<and>
           (link resp = Some (spec_link_header sp es) \<or> es = [] \<and> link resp = None) \<and>
           (case spec_rel_next es of
              None \<Rightarrow> rest = []
            | Some u \<Rightarrow> rest \<noteq> [] \<and> spec_page_chain fetch sp u rest)))"

text \<open>The URLs of the chain, in order.\<close>

fun spec_chain_urls :: "string \<Rightarrow> ((string \<times> string) list \<times> enrollment list) list \<Rightarrow> string list" where
  "spec_chain_urls url [] = []"
| "spec_chain_urls url ((es, batch) # rest) =
     url # (case spec_rel_next es of None \<Rightarrow> [] | Some u \<Rightarrow> spec_chain_urls u rest)"

section \<open>Observations on the catalog build\<close>

text \<open>The course ids of the metadata requests in a trace of requests.\<close>

fun course_requests :: "request list \<Rightarrow> int list" where
  "course_requests [] = []"
| "course_requests (GetCourse i # rs) = i # course_requests rs"
| "course_requests (_ # rs) = course_requests rs"

text \<open>What one course's metadata fetch contributes to the catalog, in the words of the
  amended claim C2: the parsed body of an \<open>ok\<close> response is delivered, everything else
  delivers nothing; a 403 or 404 logs nothing, every other failure logs a warning.\<close>

definition spec_delivered :: "catalog_api \<Rightarrow> int \<Rightarrow> course_json option" where
  "spec_delivered api i =
     (case course_fetch api i of
        Inl e \<Rightarrow> None
      | Inr cr \<Rightarrow> if ok cr then (case json cr of Inl e \<Rightarrow> None | Inr c \<Rightarrow> Some c) else None)"

definition spec_logged :: "catalog_api \<Rightarrow> int \<Rightarrow> error option" where
  "spec_logged api i =
     (case course_fetch api i of
        Inl e \<Rightarrow> Some e
      | Inr cr \<Rightarrow>
          if ok cr then (case json cr of Inl e \<Rightarrow> Some e | Inr c \<Rightarrow> None)
          else if status cr = 403 \<or> status cr = 404 then None
          else Some (CourseMetadataFetchFailed i (status cr)))"

section \<open>Observations on the download handler\<close>

text \<open>Whether the upstream answers a request of the download handler without making the
  handler throw.\<close>

fun succeeded :: "upstream \<Rightarrow> request \<Rightarrow> bool" where
  "succeeded up (GetModules c) = (\<not> isl (modules_fetch up c))"
| "succeeded up (GetFile n) = (\<not> isl (file_fetch up n))"
| "succeeded up (GetBody u) = (\<not> isl (body_fetch up u))"
| "succeeded up (GetSyllabus c) = (\<not> isl (syllabus_fetch up c))"
| "succeeded up (GetPages c) = (\<not> isl (pages_fetch up c))"
| "succeeded up (GetPageAttachments c u) = (\<not> isl (page_attachments_fetch up c u))"
| "succeeded up (GetAssignments c) = (\<not> isl (assignments_fetch up c))"
| "succeeded up (GetSubmissions c a) = (\<not> isl (submissions_fetch up c a))"
| "succeeded up (GetEnrollments u) = True"
| "succeeded up (GetCourse i) = True"

text \<open>The handler's variables when the loops start.\<close>

definition job0 :: "sse_state \<Rightarrow> job" where
  "job0 s = \<lparr>jdone = 0, archive = [], fetched = [], sse = s\<rparr>"


text \<open>A postcondition for a step that may throw: \<open>P\<close> of the state it returns normally,
  \<open>Q\<close> of the state in which it threw.\<close>

definition ends_in :: "(job \<Rightarrow> bool) \<Rightarrow> (job \<Rightarrow> bool) \<Rightarrow> error option \<times> job \<Rightarrow> bool" where
  "ends_in P Q r = (case r of (None, j) \<Rightarrow> P j | (Some e, j) \<Rightarrow> Q j)"

text \<open>\<open>P\<close> is kept by a request that succeeds and by an appended entry; a request that
  fails leads from \<open>P\<close> to \<open>Q\<close>, and so does a throw without a request.\<close>

definition step_ok :: "env \<Rightarrow> upstream \<Rightarrow> (job \<Rightarrow> bool) \<Rightarrow> (job \<Rightarrow> bool) \<Rightarrow> bool" where
  "step_ok ev up P Q =
     ((\<forall>rq j. P j \<longrightarrow> (if succeeded up rq then P (await_fetch ev rq j)
                          else Q (await_fetch ev rq j))) \<and>
      (\<forall>n st j. P j \<longrightarrow> P (archive_append n st j)) \<and>
      (\<forall>j. P j \<longrightarrow> Q j))"

text \<open>The shape of the four loop bodies over course ids: steps that keep such a \<open>P\<close>,
  followed, unless one of them threw, by \<open>done++; sendProgress(...)\<close>.\<close>

definition unit_like ::
  "env \<Rightarrow> upstream \<Rightarrow> string \<Rightarrow> nat \<Rightarrow> (string \<Rightarrow> job \<Rightarrow> error option \<times> job) \<Rightarrow> bool" where
  "unit_like ev up d tot unit =
     (\<forall>P Q c j. step_ok ev up P Q \<longrightarrow> P j \<longrightarrow>
        ends_in (\<lambda>j'. \<exists>j2 m. P j2 \<and> j' = progress d tot m j2) Q (unit c j))"

text \<open>Whether a step of the handler throws, read off the upstream's answers. An attachment
  throws when its \<open>url\<close> is no string or the request for its bytes is not answered; an item
  of a module does when it is \<open>null\<close>, and else only when it is a file with a truthy
  \<open>content_id\<close>, and then when its metadata cannot be read, or they carry no \<open>url\<close>, or the
  bytes are not answered. The status of an answer plays no part.\<close>

definition attachment_throws :: "upstream \<Rightarrow> attachment \<Rightarrow> bool" where
  "attachment_throws up a =
     (case att_url a of
        None \<Rightarrow> True
      | Some url \<Rightarrow> isl (body_fetch up url))"

definition item_throws :: "upstream \<Rightarrow> item \<Rightarrow> bool" where
  "item_throws up it =
     (case item_type it of
        None \<Rightarrow> True
      | Some ty \<Rightarrow>
          (case content_id it of
             None \<Rightarrow> False
           | Some cid \<Rightarrow>
               ty = ''File'' \<and> cid \<noteq> 0 \<and>
               (case file_fetch up cid of
                  Inl e \<Rightarrow> True
                | Inr meta \<Rightarrow>
                    (case file_url meta of
                       None \<Rightarrow> True
                     | Some url \<Rightarrow> isl (body_fetch up url)))))"

text \<open>A module throws without a name, without items, or at one of its items; a page without
  a title, when the listing of its attachments cannot be read, or at one of them; an
  assignment when it is \<open>null\<close>, when its submissions cannot be read, when the attachments
  of the first one cannot be iterated, or at one of them.\<close>

definition module_throws :: "upstream \<Rightarrow> module \<Rightarrow> bool" where
  "module_throws up m =
     (case mod_name m of
        None \<Rightarrow> True
      | Some name \<Rightarrow>
          (case mod_items m of
             None \<Rightarrow> True
           | Some items \<Rightarrow> list_ex (item_throws up) items))"

definition page_throws :: "upstream \<Rightarrow> string \<Rightarrow> page \<Rightarrow> bool" where
  "page_throws up courseId p =
     (case page_title p of
        None \<Rightarrow> True
      | Some title \<Rightarrow>
          (case page_attachments_fetch up courseId (page_url p) of
             Inl e \<Rightarrow> True
           | Inr atts \<Rightarrow> list_ex (attachment_throws up) atts))"

definition assignment_throws :: "upstream \<Rightarrow> string \<Rightarrow> assignment \<Rightarrow> bool" where
  "assignment_throws up courseId a =
     (case asg_id a of
        None \<Rightarrow> True
      | Some aid \<Rightarrow>
          (case submissions_fetch up courseId aid of
             Inl e \<Rightarrow> True
           | Inr subs \<Rightarrow>
               (case subs of
                  [] \<Rightarrow> False
                | sub # _ \<Rightarrow>
                    (case sub_attachments sub of
                       NoAttachments \<Rightarrow> False
                     | NotIterable \<Rightarrow> True
                     | Attachments atts \<Rightarrow> list_ex (attachment_throws up) atts))))"

text \<open>The selected (category, course) pairs, in the order in which the four loops take them,
  the loop body that handles a pair, and whether that body throws: when the category's
  listing cannot be read, or at one of its elements.\<close>

datatype category = Modules | Syllabus | Pages | Submissions

definition units :: "selections \<Rightarrow> (category \<times> string) list" where
  "units sel =
     map (Pair Modules) (sel_modules sel) @ map (Pair Syllabus) (sel_syllabus sel) @
     map (Pair Pages) (sel_pages sel) @ map (Pair Submissions) (sel_submissions sel)"

fun unit_step ::
  "env \<Rightarrow> upstream \<Rightarrow> string \<Rightarrow> nat \<Rightarrow> category \<times> string \<Rightarrow> job \<Rightarrow> error option \<times> job" where
  "unit_step ev up d tot (Modules, c) j = modules_unit ev up d tot c j"
| "unit_step ev up d tot (Syllabus, c) j = syllabus_unit ev up d tot c j"
| "unit_step ev up d tot (Pages, c) j = pages_unit ev up d tot c j"
| "unit_step ev up d tot (Submissions, c) j = submissions_unit ev up d tot c j"

fun unit_throws :: "upstream \<Rightarrow> category \<times> string \<Rightarrow> bool" where
  "unit_throws up (Modules, c) =
     (case modules_fetch up c of
        Inl e \<Rightarrow> True
      | Inr modules \<Rightarrow> list_ex (module_throws up) modules)"
| "unit_throws up (Syllabus, c) =
     (case syllabus_fetch up c of
        Inl e \<Rightarrow> True
      | Inr atts \<Rightarrow> list_ex (attachment_throws up) atts)"
| "unit_throws up (Pages, c) =
     (case pages_fetch up c of
        Inl e \<Rightarrow> True
      | Inr pages \<Rightarrow> list_ex (page_throws up c) pages)"
| "unit_throws up (Submissions, c) =
     (case assignments_fetch up c of
        Inl e \<Rightarrow> True
      | Inr asgs \<Rightarrow> list_ex (assignment_throws up c) asgs)"

text \<open>The archive paths of the entries a module and a page give rise to: the folder segment
  is the sanitized name, the last segment the upstream's display name or filename.\<close>

definition is_module_entry :: "upstream \<Rightarrow> string \<Rightarrow> module \<Rightarrow> string \<Rightarrow> bool" where
  "is_module_entry up c m name =
     (case mod_name m of
        None \<Rightarrow> False
      | Some nm \<Rightarrow>
          (case mod_items m of
             None \<Rightarrow> False
           | Some items \<Rightarrow>
               (\<exists>it\<in>set items.
                  case content_id it of
                    None \<Rightarrow> False
                  | Some n \<Rightarrow>
                      (case file_fetch up n of
                         Inl e \<Rightarrow> False
                       | Inr meta \<Rightarrow>
                           name = c @ ''/Modules/'' @ replace_separators nm @ ''/'' @
                                  display_name meta))))"

definition is_page_entry :: "upstream \<Rightarrow> string \<Rightarrow> page \<Rightarrow> string \<Rightarrow> bool" where
  "is_page_entry up c p name =
     (case page_title p of
        None \<Rightarrow> False
      | Some title \<Rightarrow>
          (case page_attachments_fetch up c (page_url p) of
             Inl e \<Rightarrow> False
           | Inr atts \<Rightarrow>
               (\<exists>a\<in>set atts.
                  name = c @ ''/Pages/'' @ replace_separators title @ ''/'' @ att_filename a)))"

text \<open>The \<open>done\<close> and \<open>total\<close> fields of the progress events among chunks written, in
  order.\<close>

fun progress_events :: "(nat \<times> chunk) list \<Rightarrow> (nat \<times> nat) list" where
  "progress_events [] = []"
| "progress_events ((h, ProgressEvent dn t m) # ws) = (dn, t) # progress_events ws"
| "progress_events (_ # ws) = progress_events ws"

text \<open>The chunks written since the download request arrived, when the channels were \<open>s\<close>.\<close>

definition job_chunks :: "sse_state \<Rightarrow> job \<Rightarrow> (nat \<times> chunk) list" where
  "job_chunks s j = drop (length (written s)) (written (sse j))"

text \<open>Progress events in order: \<open>done\<close> strictly increasing, between 1 and \<open>dn\<close>, every
  \<open>total\<close> equal to \<open>tot\<close>.\<close>

definition ordered_progress :: "nat \<Rightarrow> nat \<Rightarrow> (nat \<times> chunk) list \<Rightarrow> bool" where
  "ordered_progress tot dn ws =
     (sorted_wrt (<) (map fst (progress_events ws)) \<and>
      (\<forall>p\<in>set (progress_events ws). 0 < fst p \<and> fst p \<le> dn \<and> snd p = tot))"

text \<open>Invariants of the loops: what was written since the request arrived is ordered
  progress without a terminal event; as long as no close of the channel's connection
  arrives, the channel stays registered and the \<open>done\<close> values written are exactly 1 to
  \<open>done\<close>; once a close of the channel has been handled (during the \<open>k\<close>-th request), the
  channel is unregistered.\<close>

definition progress_inv :: "sse_state \<Rightarrow> nat \<Rightarrow> job \<Rightarrow> bool" where
  "progress_inv s tot j =
     (written (sse j) = written s @ job_chunks s j \<and>
      DoneEvent \<notin> snd ` set (job_chunks s j) \<and>
      ordered_progress tot (jdone j) (job_chunks s j))"


definition cancel_inv :: "string \<Rightarrow> nat \<Rightarrow> job \<Rightarrow> bool" where
  "cancel_inv d k j = (k < length (fetched j) \<longrightarrow> sseClients (sse j) d = None)"


text \<open>Two states of the handler with the same \<open>done\<close>, archive entries and requests,
  whatever their progress channels; two steps that end alike in such states.\<close>

definition same_work :: "job \<Rightarrow> job \<Rightarrow> bool" where
  "same_work j j' = (jdone j = jdone j' \<and> archive j = archive j' \<and> fetched j = fetched j')"

definition same_result :: "error option \<times> job \<Rightarrow> error option \<times> job \<Rightarrow> bool" where
  "same_result r r' = (fst r = fst r' \<and> same_work (snd r) (snd r'))"

text \<open>What a download did upstream and to the archive: the thrown error if any, \<open>done\<close>,
  the entries appended and the requests issued.\<close>

fun work_of ::
  "download_result \<Rightarrow> (error option \<times> nat \<times> (string \<times> string) list \<times> request list) option" where
  "work_of Status400 = None"
| "work_of (Threw e j) = Some (Some e, jdone j, archive j, fetched j)"
| "work_of (Finalized j) = Some (None, jdone j, archive j, fetched j)"

section \<open>Example upstreams and requests\<close>

text \<open>An enrollment listing of two pages, with course ids 1, 2 and 1; course 1 has
  metadata, course 2 answers 500, every other course 404.\<close>

definition demo_header :: "string \<Rightarrow> string \<Rightarrow> string" where
  "demo_header u r = ''<'' @ u @ ''>; rel='' @ [CHR 0x22] @ r @ [CHR 0x22]"

definition demo_enroll_fetch :: "string \<Rightarrow> error + enrollment list response" where
  "demo_enroll_fetch url =
     (if url = ''https://lms/e?page=1'' then
        Inr \<lparr>status = 200,
             link = Some (demo_header ''https://lms/e?page=1'' ''current'' @ '','' @
                          demo_header ''https://lms/e?page=2'' ''next''),
             json = Inr [\<lparr>course_id = 1\<rparr>, \<lparr>course_id = 2\<rparr>]\<rparr>
      else if url = ''https://lms/e?page=2'' then
        Inr \<lparr>status = 200,
             link = Some (demo_header ''https://lms/e?page=1'' ''first''),
             json = Inr [\<lparr>course_id = 1\<rparr>]\<rparr>
      else Inl (Thrown ''getaddrinfo ENOTFOUND''))"

definition demo_pages :: "((string \<times> string) list \<times> enrollment list) list" where
  "demo_pages =
     [([(''https://lms/e?page=1'', ''current''), (''https://lms/e?page=2'', ''next'')],
       [\<lparr>course_id = 1\<rparr>, \<lparr>course_id = 2\<rparr>]),
      ([(''https://lms/e?page=1'', ''first'')], [\<lparr>course_id = 1\<rparr>])]"

definition demo_course :: "int \<Rightarrow> course_json" where
  "demo_course i =
     \<lparr>cj_id = i, cj_name = ''Algebra'', cj_course_code = ''MA1'', cj_term = None,
      cj_published = True\<rparr>"

definition demo_course_fetch :: "int \<Rightarrow> error + course_json response" where
  "demo_course_fetch i =
     (if i = 1 then Inr \<lparr>status = 200, link = None, json = Inr (demo_course 1)\<rparr>
      else if i = 2 then Inr \<lparr>status = 500, link = None, json = Inl (Thrown ''Unexpected token'')\<rparr>
      else Inr \<lparr>status = 404, link = None, json = Inl (Thrown ''Unexpected token'')\<rparr>)"

definition demo_api :: catalog_api where
  "demo_api = \<lparr>enroll_fetch = demo_enroll_fetch, course_fetch = demo_course_fetch\<rparr>"

text \<open>An upstream for downloads. Course 101 has one module, \<open>Unit 1/Intro\<close>, with one file
  whose display name holds a backslash. The one file of course 102 has no metadata. The
  second module of course 103 comes without its items. The modules listing of every other
  course and the syllabus listing of course 404 fail. Every page has one attachment, whose
  bytes are answered with status 404 and an error page.\<close>

definition demo_up :: upstream where
  "demo_up =
     \<lparr>modules_fetch = (\<lambda>c.
        if c = ''101'' then
          Inr [\<lparr>mod_name = Some ''Unit 1/Intro'',
                mod_items = Some [\<lparr>item_type = Some ''File'', content_id = Some 7\<rparr>,
                                  \<lparr>item_type = Some ''Page'', content_id = None\<rparr>]\<rparr>]
        else if c = ''102'' then
          Inr [\<lparr>mod_name = Some ''Week 1'',
                mod_items = Some [\<lparr>item_type = Some ''File'', content_id = Some 9\<rparr>]\<rparr>]
        else if c = ''103'' then
          Inr [\<lparr>mod_name = Some ''Week 1'',
                mod_items = Some [\<lparr>item_type = Some ''File'', content_id = Some 7\<rparr>]\<rparr>,
               \<lparr>mod_name = Some ''Week 2'', mod_items = None\<rparr>]
        else Inl (Thrown ''modules is not iterable'')),
      file_fetch = (\<lambda>n.
        if n = 7 then Inr \<lparr>file_url = Some ''https://files/7'',
                            display_name = ''a'' @ [CHR 0x5C] @ ''b.pdf''\<rparr>
        else Inl (Thrown ''invalid json response body'')),
      body_fetch = (\<lambda>u.
        if u = ''https://files/7'' then Inr \<lparr>b_status = 200, b_bytes = ''%PDF''\<rparr>
        else if u = ''https://files/8'' then Inr \<lparr>b_status = 404, b_bytes = ''Not Found''\<rparr>
        else Inl (Thrown ''connect ECONNREFUSED'')),
      syllabus_fetch = (\<lambda>c.
        if c = ''404'' then Inl (Thrown ''atts is not iterable'') else Inr []),
      pages_fetch = (\<lambda>c. Inr [\<lparr>page_title = Some ''Notes/1'', page_url = ''notes-1''\<rparr>]),
      page_attachments_fetch = (\<lambda>c u.
        Inr [\<lparr>att_url = Some ''https://files/8'', att_filename = ''x/y.txt''\<rparr>]),
      assignments_fetch = (\<lambda>c. Inr [\<lparr>asg_id = Some 5, asg_name = ''HW/1''\<rparr>]),
      submissions_fetch = (\<lambda>c a.
        Inr [\<lparr>sub_attachments =
                Attachments [\<lparr>att_url = Some ''https://files/8'', att_filename = ''hw.txt''\<rparr>]\<rparr>])\<rparr>"

text \<open>The progress channels after \<open>job1\<close> has opened its channel.\<close>

definition demo_sse :: sse_state where
  "demo_sse = \<lparr>sseClients = [''job1'' \<mapsto> 0], written = [(0, Newline)], ended = [], opened = 1\<rparr>"

text \<open>Surroundings in which nothing arrives, and surroundings in which the client cancels
  during the \<open>k\<close>-th request; the archive ends in both.\<close>

definition quiet :: env where
  "quiet = \<lparr>arrivals = (\<lambda>n. []), archive_ends = True\<rparr>"

definition canceled_env :: "nat \<Rightarrow> string \<Rightarrow> env" where
  "canceled_env k d =
     \<lparr>arrivals = (\<lambda>n. if n = k then cancel_events d else []), archive_ends = True\<rparr>"


text \<open>The \<open>selections\<close> of a request body, by its four lists.\<close>

definition select :: "string list \<Rightarrow> string list \<Rightarrow> string list \<Rightarrow> string list \<Rightarrow> selections" where
  "select ms sy ps sb = \<lparr>sel_modules = ms, sel_syllabus = sy, sel_pages = ps, sel_submissions = sb\<rparr>"

section \<open>Properties of the pagination parser\<close>

lemma split_on_nonempty: "split_on c xs \<noteq> []"
  by (induction xs) (auto split: list.splits)

lemma split_on_none: "c \<notin> set xs \<Longrightarrow> split_on c xs = [xs]"
  by (induction xs) auto

lemma split_on_append: "c \<notin> set xs \<Longrightarrow> split_on c (xs @ c # ys) = xs # split_on c ys"
  by (induction xs) auto

lemma split_on_prepend:
  "c \<notin> set xs \<Longrightarrow> split_on c (xs @ ys) = (xs @ hd (split_on c ys)) # tl (split_on c ys)"
  using split_on_nonempty[of c ys]
  by (induction xs) (auto split: list.splits)

lemma is_space_not_comma: "is_space c \<Longrightarrow> c \<noteq> CHR '',''"
  by (auto simp: is_space_def)

lemma trim_padded:
  assumes "\<forall>c\<in>set sp. is_space c" "s \<noteq> []" "\<not> is_space (hd s)" "\<not> is_space (last s)"
  shows "trim (sp @ s) = s"
proof -
  have a: "dropWhile is_space (sp @ s) = s"
    using assms by (cases s) (auto simp: dropWhile_append)
  have b: "dropWhile is_space (rev s) = rev s"
    using assms by (cases s rule: rev_cases) auto
  show ?thesis by (simp add: trim_def a b)
qed

lemma starts_with_iff: "starts_with p s \<longleftrightarrow> (\<exists>t. s = p @ t)"
  by (induction p s rule: starts_with.induct) auto

lemma includes_lit_imp: "includes_lit p s \<Longrightarrow> \<exists>a b. s = a @ p @ b"
proof (induction s)
  case Nil
  then show ?case by auto
next
  case (Cons c cs)
  then consider "starts_with p (c # cs)" | "includes_lit p cs" by auto
  then show ?case
  proof cases
    case 1
    then obtain t where "c # cs = p @ t" by (auto simp: starts_with_iff)
    then have "c # cs = [] @ p @ t" by simp
    then show ?thesis by blast
  next
    case 2
    then obtain a b where "cs = a @ p @ b" using Cons.IH by auto
    then have "c # cs = (c # a) @ p @ b" by simp
    then show ?thesis by blast
  qed
qed

lemma starts_with_closing:
  "q \<notin> set r \<Longrightarrow> q \<notin> set p \<Longrightarrow> starts_with (p @ [q]) (r @ [q]) = (r = p)"
proof (induction p arbitrary: r)
  case Nil
  then show ?case by (cases r) auto
next
  case (Cons x p)
  then show ?case by (cases r) auto
qed

lemma no_inner_quote:
  assumes "CHR 0x22 \<notin> set r"
  shows "\<not> includes_lit rel_next_regex (r @ [CHR 0x22])"
proof
  assume "includes_lit rel_next_regex (r @ [CHR 0x22])"
  then obtain a b where ab: "r @ [CHR 0x22] = a @ rel_next_regex @ b"
    using includes_lit_imp by blast
  have len: "length r = length a + 9 + length b"
    using arg_cong[OF ab, of length] by (simp add: rel_next_regex_def)
  have "(r @ [CHR 0x22]) ! (length a + 4) = CHR 0x22"
    unfolding ab by (simp add: nth_append rel_next_regex_def)
  moreover have "length a + 4 < length r" using len by simp
  ultimately have "r ! (length a + 4) = CHR 0x22" by (simp add: nth_append)
  with \<open>length a + 4 < length r\<close> assms show False
    by (metis nth_mem)
qed

lemma regex_test_rel:
  assumes "CHR 0x22 \<notin> set r"
  shows "regex_test (Some ('' rel='' @ [CHR 0x22] @ r @ [CHR 0x22])) = (r = ''next'')"
proof -
  have "starts_with (''next'' @ [CHR 0x22]) (r @ [CHR 0x22]) = (r = ''next'')"
    using assms by (intro starts_with_closing) auto
  then show ?thesis
    using no_inner_quote[OF assms] by (simp add: regex_test_def rel_next_regex_def)
qed

lemma entry_split:
  assumes "wf_entry e" "\<forall>c\<in>set sp. is_space c"
  shows "split_on CHR '';'' (trim (sp @ spec_link_entry e)) =
           [''<'' @ fst e @ ''>'', '' rel='' @ [CHR 0x22] @ snd e @ [CHR 0x22]]"
proof -
  define A where "A = ''<'' @ fst e @ ''>''"
  define B where "B = '' rel='' @ [CHR 0x22] @ snd e @ [CHR 0x22]"
  have t: "trim (sp @ spec_link_entry e) = spec_link_entry e"
    using assms(2) by (intro trim_padded) (auto simp: spec_link_entry_def is_space_def)
  have eq: "spec_link_entry e = A @ CHR '';'' # B"
    by (simp add: spec_link_entry_def A_def B_def)
  have nA: "CHR '';'' \<notin> set A"
    using assms(1) by (simp add: wf_entry_def A_def)
  have nB: "CHR '';'' \<notin> set B"
    using assms(1) by (simp add: wf_entry_def B_def)
  have "split_on CHR '';'' (spec_link_entry e) = [A, B]"
    unfolding eq by (simp only: split_on_append[OF nA] split_on_none[OF nB])
  then show ?thesis
    unfolding t A_def B_def .
qed

lemma slice_bracketed: "slice_1_m1 (trim (''<'' @ u @ ''>'')) = u"
proof -
  have "trim ([] @ (''<'' @ u @ ''>'')) = ''<'' @ u @ ''>''"
    by (intro trim_padded) (auto simp: is_space_def)
  then show ?thesis by (simp add: slice_1_m1_def butlast_append)
qed

lemma getNextPage_parts_entries:
  assumes "list_all2 (\<lambda>part e. \<exists>sp. (\<forall>c\<in>set sp. is_space c) \<and> part = sp @ spec_link_entry e) parts es"
    and "\<forall>e\<in>set es. wf_entry e"
  shows "getNextPage_parts parts = spec_rel_next es"
  using assms
proof (induction parts es rule: list_all2_induct)
  case Nil
  then show ?case by (simp add: spec_rel_next_def)
next
  case (Cons part parts e es)
  then obtain sp where sp: "\<forall>c\<in>set sp. is_space c" "part = sp @ spec_link_entry e" by auto
  have wf: "wf_entry e" using Cons.prems by simp
  have q: "CHR 0x22 \<notin> set (snd e)" using wf by (simp add: wf_entry_def)
  have IH: "getNextPage_parts parts = spec_rel_next es" using Cons by simp
  show ?case
    using IH slice_bracketed[of "fst e"] regex_test_rel[OF q]
    by (simp add: sp(2) entry_split[OF wf sp(1)] spec_rel_next_def del: append.simps)
qed

lemma entry_no_comma: "wf_entry e \<Longrightarrow> CHR '','' \<notin> set (spec_link_entry e)"
  by (simp add: wf_entry_def spec_link_entry_def)

lemma spec_link_header_Cons:
  "es \<noteq> [] \<Longrightarrow>
   spec_link_header sp (e # es) = spec_link_entry e @ CHR '','' # sp @ spec_link_header sp es"
  by (cases es) auto

lemma split_header:
  assumes "\<forall>c\<in>set sp. is_space c" "es \<noteq> []" "\<forall>e\<in>set es. wf_entry e"
  shows "split_on CHR '','' (spec_link_header sp es) =
      spec_link_entry (hd es) # map (\<lambda>e. sp @ spec_link_entry e) (tl es)"
  using assms(2,3)
proof (induction es rule: list_nonempty_induct)
  case (single e)
  then show ?case by (simp add: split_on_none entry_no_comma)
next
  case (cons e es)
  have nc: "CHR '','' \<notin> set sp" using assms(1) is_space_not_comma by blast
  have ne: "CHR '','' \<notin> set (spec_link_entry e)" using cons.prems by (simp add: entry_no_comma)
  have IH: "split_on CHR '','' (spec_link_header sp es) =
      spec_link_entry (hd es) # map (\<lambda>e. sp @ spec_link_entry e) (tl es)"
    using cons by simp
  have "split_on CHR '','' (spec_link_header sp (e # es)) =
          spec_link_entry e # split_on CHR '','' (sp @ spec_link_header sp es)"
    by (simp only: spec_link_header_Cons[OF cons.hyps] split_on_append[OF ne])
  also have "split_on CHR '','' (sp @ spec_link_header sp es) =
          (sp @ spec_link_entry (hd es)) # map (\<lambda>e. sp @ spec_link_entry e) (tl es)"
    by (simp only: split_on_prepend[OF nc] IH list.sel)
  also have "\<dots> = map (\<lambda>e. sp @ spec_link_entry e) es"
    using cons.hyps by (cases es) simp_all
  finally show ?case by simp
qed

lemma header_nonempty: "es \<noteq> [] \<Longrightarrow> spec_link_header sp es \<noteq> []"
  by (induction sp es rule: spec_link_header.induct) (auto simp: spec_link_entry_def)

lemma getNextPage_header:
  assumes "\<forall>c\<in>set sp. is_space c" "\<forall>e\<in>set es. wf_entry e"
  shows "getNextPage (Some (spec_link_header sp es)) = spec_rel_next es"
proof (cases es)
  case Nil
  then show ?thesis by (simp add: getNextPage_def spec_rel_next_def)
next
  case (Cons e es')
  have "list_all2 (\<lambda>part e. \<exists>sp. (\<forall>c\<in>set sp. is_space c) \<and> part = sp @ spec_link_entry e)
          (spec_link_entry e # map (\<lambda>e. sp @ spec_link_entry e) es') (e # es')"
  proof -
    have "\<exists>s. (\<forall>c\<in>set s. is_space c) \<and> spec_link_entry e = s @ spec_link_entry e"
      by (rule exI[of _ "[]"]) simp
    moreover have "list_all2 (\<lambda>part e. \<exists>sp. (\<forall>c\<in>set sp. is_space c) \<and> part = sp @ spec_link_entry e)
          (map (\<lambda>e. sp @ spec_link_entry e) es') es'"
      using assms(1) by (auto simp: list_all2_map1 intro!: list_all2_refl)
    ultimately show ?thesis by simp
  qed
  then have "getNextPage_parts (spec_link_entry e # map (\<lambda>e. sp @ spec_link_entry e) es') =
          spec_rel_next es"
    using getNextPage_parts_entries assms(2) Cons by blast
  then show ?thesis
    using split_header[OF assms(1), of es] assms(2) header_nonempty[of es sp] Cons
    by (simp add: getNextPage_def)
qed

lemma enrollments_loop_chain:
  assumes "\<forall>c\<in>set sp. is_space c"
  shows "spec_page_chain fetch sp url pages \<Longrightarrow>
    enrollments_loop fetch (Some url) acc tr =
      Some (tr @ map GetEnrollments (spec_chain_urls url pages), Inr (acc @ concat (map snd pages)))"
proof (induction pages arbitrary: url acc tr)
  case Nil
  then show ?case by simp
next
  case (Cons p rest)
  obtain es batch where p: "p = (es, batch)" by (cases p)
  from Cons.prems obtain resp where resp: "fetch url = Inr resp"
    by (auto simp: p split: sum.splits)
  from Cons.prems have u: "url \<noteq> []" and wf: "\<forall>e\<in>set es. wf_entry e"
    and okr: "ok resp" and js: "json resp = Inr batch"
    and lk: "link resp = Some (spec_link_header sp es) \<or> es = [] \<and> link resp = None"
    by (auto simp: p resp)
  have nx: "getNextPage (link resp) = spec_rel_next es"
    using lk getNextPage_header[OF assms wf]
    by (auto simp: getNextPage_def spec_rel_next_def)
  show ?case
  proof (cases "spec_rel_next es")
    case None
    then have "rest = []" using Cons.prems by (simp add: p resp)
    then show ?thesis
      apply (subst enrollments_loop.simps)
      apply (simp add: u resp okr js nx None p)
      apply (subst enrollments_loop.simps)
      apply simp
      done
  next
    case (Some v)
    then have ch: "spec_page_chain fetch sp v rest" using Cons.prems by (simp add: p resp)
    show ?thesis
      apply (subst enrollments_loop.simps)
      apply (simp add: u resp okr js nx Some p Cons.IH[OF ch])
      done
  qed
qed

lemma course_requests_append [simp]:
  "course_requests (xs @ ys) = course_requests xs @ course_requests ys"
  by (induction xs rule: course_requests.induct) auto

lemma course_requests_map [simp]: "course_requests (map GetCourse ids) = ids"
  by (induction ids) auto

lemma enrollments_loop_trace:
  assumes "enrollments_loop fetch nxt acc tr = Some y"
  shows "course_requests (fst y) = course_requests tr"
  by (rule enrollments_loop.raw_induct[OF _ assms])
     (auto split: option.splits if_splits sum.splits)

text \<open>
  Claim C6. Started at a URL, the paginator requests that URL and then, page after page, the
  URL of the entry with relation \<open>next\<close> of the page's Link header, its angle brackets
  stripped; it stops at the first page whose header has no such entry, and it returns the
  pages' bodies appended in page order, so the length of the result is the sum of the pages'
  lengths. The header is the specification's comma-separated list of \<open><url>; rel="name"\<close>
  entries, whose URLs and names hold no comma or semicolon and whose names hold no quote.
\<close>

theorem paginator_follows_next_links:
  assumes "\<forall>c\<in>set sp. is_space c" and "spec_page_chain fetch sp url pages"
  shows "enrollments_loop fetch (Some url) [] [] =
           Some (map GetEnrollments (spec_chain_urls url pages), Inr (concat (map snd pages)))
         \<and> length (concat (map snd pages)) = sum_list (map (length \<circ> snd) pages)"
  using enrollments_loop_chain[OF assms, of "[]" "[]"]
  by (simp add: length_concat comp_def)

theorem paginator_follows_next_links_witness:
  "spec_page_chain demo_enroll_fetch [] ''https://lms/e?page=1'' demo_pages \<and>
   enrollments_loop demo_enroll_fetch (Some ''https://lms/e?page=1'') [] [] =
     Some ([GetEnrollments ''https://lms/e?page=1'', GetEnrollments ''https://lms/e?page=2''],
           Inr [\<lparr>course_id = 1\<rparr>, \<lparr>course_id = 2\<rparr>, \<lparr>course_id = 1\<rparr>])"
proof -
  have sp: "\<forall>c\<in>set []. is_space c" by simp
  have ch: "spec_page_chain demo_enroll_fetch [] ''https://lms/e?page=1'' demo_pages"
    by (simp add: demo_pages_def demo_enroll_fetch_def demo_header_def wf_entry_def ok_def
        spec_link_entry_def spec_rel_next_def)
  show ?thesis
    using ch paginator_follows_next_links[OF sp ch]
    by (simp add: demo_pages_def spec_rel_next_def)
qed

section \<open>Properties of the catalog build\<close>

lemma set_foldl_Set_add: "set (foldl Set_add acc xs) = set acc \<union> set xs"
  by (induction xs arbitrary: acc) (auto simp: Set_add_def)

lemma distinct_foldl_Set_add: "distinct acc \<Longrightarrow> distinct (foldl Set_add acc xs)"
  by (induction xs arbitrary: acc) (auto simp: Set_add_def)

lemma set_new_Set: "set (new_Set xs) = set xs"
  by (simp add: new_Set_def set_foldl_Set_add)

lemma distinct_new_Set: "distinct (new_Set xs)"
  by (simp add: new_Set_def distinct_foldl_Set_add)

lemma course_loop_trace: "trace (course_loop api ids st) = trace st @ map GetCourse ids"
  by (induction ids arbitrary: st) (auto simp: Let_def split: sum.splits)

lemma course_loop_courses:
  "courses (course_loop api ids st) =
     courses st @ map course_of_json (List.map_filter (spec_delivered api) ids)"
  by (induction ids arbitrary: st)
     (auto simp: Let_def spec_delivered_def List.map_filter_simps split: sum.splits)

lemma course_loop_warnings:
  "warnings (course_loop api ids st) = warnings st @ List.map_filter (spec_logged api) ids"
  by (induction ids arbitrary: st)
     (auto simp: Let_def spec_logged_def List.map_filter_simps split: sum.splits)

lemma demo_enrollments:
  "enrollments_loop demo_enroll_fetch (Some ''https://lms/e?page=1'') [] [] =
     Some ([GetEnrollments ''https://lms/e?page=1'', GetEnrollments ''https://lms/e?page=2''],
           Inr [\<lparr>course_id = 1\<rparr>, \<lparr>course_id = 2\<rparr>, \<lparr>course_id = 1\<rparr>])"
  apply (subst enrollments_loop.simps)
  apply (simp add: demo_enroll_fetch_def demo_header_def ok_def getNextPage_def trim_def
      is_space_def regex_test_def rel_next_regex_def slice_1_m1_def)
  apply (subst enrollments_loop.simps)
  apply (simp add: demo_enroll_fetch_def demo_header_def ok_def getNextPage_def trim_def
      is_space_def regex_test_def rel_next_regex_def slice_1_m1_def)
  apply (subst enrollments_loop.simps)
  apply simp
  done

text \<open>
  Claim C7. The catalog build reduces the enrollment records to their distinct course ids
  before it fetches metadata: the metadata requests of a build are the distinct
  \<open>course_id\<close>s of the enrollments in first-occurrence order, one request per id. For the
  enrollments with ids 1, 2, 1 these are the two requests for 1 and 2.
\<close>

theorem catalog_fetches_each_course_once:
  assumes "enrollments_loop (enroll_fetch api) (Some url) [] [] = Some (tr, Inr es)"
  shows "\<exists>tr' ws r. fetchAllCourses api url = Some (tr', ws, r) \<and>
           course_requests tr' = new_Set (map course_id es) \<and>
           distinct (course_requests tr') \<and>
           set (course_requests tr') = course_id ` set es \<and>
           length (course_requests tr') = card (course_id ` set es)"
proof -
  let ?ids = "new_Set (map course_id es)"
  have tr: "course_requests tr = []"
    using enrollments_loop_trace[OF assms] by simp
  have "length ?ids = card (set ?ids)"
    using distinct_card[OF distinct_new_Set, of "map course_id es"] by simp
  then have len: "length ?ids = card (course_id ` set es)"
    by (simp add: set_new_Set)
  show ?thesis
    using tr len
    by (simp add: fetchAllCourses_def assms Let_def course_loop_trace distinct_new_Set set_new_Set)
qed

theorem catalog_fetches_each_course_once_witness:
  "\<exists>tr' ws r. fetchAllCourses demo_api ''https://lms/e?page=1'' = Some (tr', ws, r) \<and>
      course_requests tr' = [1, 2]"
proof -
  have h: "enrollments_loop (enroll_fetch demo_api) (Some ''https://lms/e?page=1'') [] [] =
     Some ([GetEnrollments ''https://lms/e?page=1'', GetEnrollments ''https://lms/e?page=2''],
           Inr [\<lparr>course_id = 1\<rparr>, \<lparr>course_id = 2\<rparr>, \<lparr>course_id = 1\<rparr>])"
    using demo_enrollments by (simp add: demo_api_def)
  show ?thesis
    using catalog_fetches_each_course_once[OF h]
    by (auto simp: new_Set_def Set_add_def)
qed

text \<open>
  Claim C2, amended. No status of a course's metadata fetch aborts the catalog build: once
  the enrollments are listed, the build requests every distinct id, \<open>/api/courses\<close>
  answers 200 with the courses whose fetch delivered metadata, and a response that is not
  \<open>ok\<close> delivers none. A 403 or 404 is skipped silently; any other such status is logged
  as a warning and skipped too.
\<close>

theorem metadata_failure_skips_course:
  assumes "enrollments_loop (enroll_fetch api) (Some url) [] [] = Some (tr, Inr es)"
  shows "\<exists>ws cs. fetchAllCourses api url =
             Some (tr @ map GetCourse (new_Set (map course_id es)), ws, Inr cs) \<and>
           api_courses api url = Some (Json200 cs) \<and>
           cs = map course_of_json (List.map_filter (spec_delivered api) (new_Set (map course_id es))) \<and>
           ws = List.map_filter (spec_logged api) (new_Set (map course_id es)) \<and>
           (\<forall>i cr. course_fetch api i = Inr cr \<and> \<not> ok cr \<longrightarrow>
              spec_delivered api i = None \<and>
              spec_logged api i =
                (if status cr = 403 \<or> status cr = 404 then None
                 else Some (CourseMetadataFetchFailed i (status cr))))"
  by (simp add: fetchAllCourses_def api_courses_def assms Let_def course_loop_trace
      course_loop_courses course_loop_warnings spec_delivered_def spec_logged_def)

theorem metadata_failure_skips_course_witness:
  "fetchAllCourses demo_api ''https://lms/e?page=1'' =
     Some ([GetEnrollments ''https://lms/e?page=1'', GetEnrollments ''https://lms/e?page=2'',
            GetCourse 1, GetCourse 2],
           [CourseMetadataFetchFailed 2 500], Inr [course_of_json (demo_course 1)])"
proof -
  have h: "enrollments_loop (enroll_fetch demo_api) (Some ''https://lms/e?page=1'') [] [] =
     Some ([GetEnrollments ''https://lms/e?page=1'', GetEnrollments ''https://lms/e?page=2''],
           Inr [\<lparr>course_id = 1\<rparr>, \<lparr>course_id = 2\<rparr>, \<lparr>course_id = 1\<rparr>])"
    using demo_enrollments by (simp add: demo_api_def)
  show ?thesis
    using metadata_failure_skips_course[OF h]
    by (auto simp: new_Set_def Set_add_def List.map_filter_simps spec_delivered_def
        spec_logged_def demo_api_def demo_course_fetch_def ok_def)
qed

text \<open>
  Claim C2 as stated fails: course 2 answers 500, and the build still returns course 1
  with status 200.
\<close>

theorem status_500_does_not_abort_counterexample:
  "course_fetch demo_api 2 = Inr \<lparr>status = 500, link = None, json = Inl (Thrown ''Unexpected token'')\<rparr> \<and>
   api_courses demo_api ''https://lms/e?page=1'' = Some (Json200 [course_of_json (demo_course 1)])"
  by (simp add: api_courses_def fetchAllCourses_def demo_api_def demo_enrollments Let_def
      new_Set_def Set_add_def demo_course_fetch_def ok_def)

section \<open>Invariants of the download handler\<close>

lemma ends_in_simps [simp]:
  "ends_in P Q (None, j) = P j" "ends_in P Q (Some e, j) = Q j"
  by (simp_all add: ends_in_def)

lemma ends_in_mono:
  "ends_in P Q r \<Longrightarrow> (\<And>j. P j \<Longrightarrow> P' j) \<Longrightarrow> (\<And>j. Q j \<Longrightarrow> Q' j) \<Longrightarrow> ends_in P' Q' r"
  by (auto simp: ends_in_def split: prod.splits option.splits)

lemma for_of_ends_in:
  assumes "P j" and "\<And>x j. x \<in> set xs \<Longrightarrow> P j \<Longrightarrow> ends_in P Q (body x j)"
  shows "ends_in P Q (for_of body xs j)"
  using assms
proof (induction xs arbitrary: j)
  case Nil
  then show ?case by simp
next
  case (Cons x xs)
  have "ends_in P Q (body x j)" using Cons.prems by simp
  then show ?case
    using Cons by (cases "body x j") (auto split: option.splits)
qed

lemma step_ok_P:
  "step_ok ev up P Q \<Longrightarrow> P j \<Longrightarrow> succeeded up rq \<Longrightarrow> P (await_fetch ev rq j)"
  unfolding step_ok_def by metis

lemma step_ok_Q:
  "step_ok ev up P Q \<Longrightarrow> P j \<Longrightarrow> \<not> succeeded up rq \<Longrightarrow> Q (await_fetch ev rq j)"
  unfolding step_ok_def by metis

lemma step_ok_append:
  "step_ok ev up P Q \<Longrightarrow> P j \<Longrightarrow> P (archive_append n st j)"
  unfolding step_ok_def by metis

lemma step_ok_throw:
  "step_ok ev up P Q \<Longrightarrow> P j \<Longrightarrow> Q j"
  unfolding step_ok_def by metis

lemma module_step_None:
  "mod_name m = None \<or> mod_items m = None \<Longrightarrow> module_step ev up c m j = (Some type_error, j)"
  by (auto simp: module_step_def Let_def split: option.splits)

lemma module_step_Some:
  "mod_name m = Some nm \<Longrightarrow> mod_items m = Some items \<Longrightarrow>
   module_step ev up c m j = for_of (module_item ev up c (replace_separators nm)) items j"
  by (simp add: module_step_def Let_def)

lemma page_step_None:
  "page_title p = None \<Longrightarrow> page_step ev up c p j = (Some type_error, j)"
  by (simp add: page_step_def)

lemma page_step_Some:
  "page_title p = Some title \<Longrightarrow>
   page_step ev up c p j =
     (case page_attachments_fetch up c (page_url p) of
        Inl e \<Rightarrow> (Some e, await_fetch ev (GetPageAttachments c (page_url p)) j)
      | Inr atts \<Rightarrow>
          for_of (attachment_step ev up (c @ ''/Pages/'' @ replace_separators title)) atts
            (await_fetch ev (GetPageAttachments c (page_url p)) j))"
  by (simp add: page_step_def Let_def)

lemma attachment_step_ok:
  assumes "step_ok ev up P Q" "P j"
  shows "ends_in P Q (attachment_step ev up folder a j)"
proof (cases "att_url a")
  case None
  then show ?thesis using step_ok_throw[OF assms] by (simp add: attachment_step_def)
next
  case (Some url)
  then show ?thesis
    using step_ok_P[OF assms, of "GetBody url"] step_ok_Q[OF assms, of "GetBody url"]
      step_ok_append[OF assms(1)]
    by (auto simp: attachment_step_def Let_def split: sum.splits)
qed

lemma module_file_ok:
  assumes "step_ok ev up P Q" "P j"
  shows "ends_in P Q (module_file ev up c safeMod n j)"
proof (cases "file_fetch up n")
  case (Inl e)
  then have "Q (await_fetch ev (GetFile n) j)"
    using step_ok_Q[OF assms, of "GetFile n"] by simp
  then show ?thesis using Inl by (simp add: module_file_def)
next
  case (Inr meta)
  then have p1: "P (await_fetch ev (GetFile n) j)"
    using step_ok_P[OF assms, of "GetFile n"] by simp
  show ?thesis
  proof (cases "file_url meta")
    case None
    then show ?thesis
      using step_ok_throw[OF assms(1) p1] Inr by (simp add: module_file_def)
  next
    case (Some url)
    show ?thesis
      using step_ok_P[OF assms(1) p1, of "GetBody url"]
        step_ok_Q[OF assms(1) p1, of "GetBody url"]
        step_ok_append[OF assms(1)] Inr Some
      by (auto simp: module_file_def Let_def split: sum.splits)
  qed
qed

lemma module_item_ok:
  assumes "step_ok ev up P Q" "P j"
  shows "ends_in P Q (module_item ev up c safeMod it j)"
  using module_file_ok[OF assms] step_ok_throw[OF assms] assms(2)
  by (simp add: module_item_def split: option.splits)

lemma module_step_ok:
  assumes "step_ok ev up P Q" "P j"
  shows "ends_in P Q (module_step ev up c m j)"
proof (cases "mod_name m = None \<or> mod_items m = None")
  case True
  then show ?thesis using step_ok_throw[OF assms] by (simp add: module_step_None)
next
  case False
  then obtain nm items where s: "mod_name m = Some nm" "mod_items m = Some items" by auto
  show ?thesis
    unfolding module_step_Some[OF s]
    by (rule for_of_ends_in[where P = P, OF assms(2)]) (rule module_item_ok[OF assms(1)])
qed

lemma page_step_ok:
  assumes "step_ok ev up P Q" "P j"
  shows "ends_in P Q (page_step ev up c p j)"
proof (cases "page_title p")
  case None
  then show ?thesis using step_ok_throw[OF assms] by (simp add: page_step_None)
next
  case (Some title)
  show ?thesis
  proof (cases "page_attachments_fetch up c (page_url p)")
    case (Inl e)
    then show ?thesis
      using step_ok_Q[OF assms, of "GetPageAttachments c (page_url p)"]
      by (simp add: page_step_Some[OF Some])
  next
    case (Inr atts)
    then have "P (await_fetch ev (GetPageAttachments c (page_url p)) j)"
      using step_ok_P[OF assms, of "GetPageAttachments c (page_url p)"] by simp
    then show ?thesis
      using Inr for_of_ends_in[where P = P and Q = Q and xs = atts, OF _ attachment_step_ok[OF assms(1)]]
      by (simp add: page_step_Some[OF Some])
  qed
qed

lemma assignment_step_ok:
  assumes "step_ok ev up P Q" "P j"
  shows "ends_in P Q (assignment_step ev up c a j)"
proof (cases "asg_id a")
  case None
  then show ?thesis using step_ok_throw[OF assms] by (simp add: assignment_step_def)
next
  case (Some aid)
  show ?thesis
  proof (cases "submissions_fetch up c aid")
    case (Inl e)
    then show ?thesis
      using step_ok_Q[OF assms, of "GetSubmissions c aid"] Some
      by (simp add: assignment_step_def Let_def)
  next
    case (Inr subs)
    then have p1: "P (await_fetch ev (GetSubmissions c aid) j)"
      using step_ok_P[OF assms, of "GetSubmissions c aid"] by simp
    then show ?thesis
      using Inr Some step_ok_throw[OF assms(1) p1]
        for_of_ends_in[where P = P and Q = Q, OF _ attachment_step_ok[OF assms(1)]]
      by (auto simp: assignment_step_def Let_def split: list.splits attachments_value.splits)
  qed
qed

lemma unit_tail:
  assumes "ends_in P Q r"
  shows "ends_in (\<lambda>j'. \<exists>j2 m. P j2 \<and> j' = progress d tot m j2) Q
           (case r of (Some e, j2) \<Rightarrow> (Some e, j2) | (None, j2) \<Rightarrow> (None, progress d tot msg j2))"
  using assms by (cases r) (auto split: option.splits)

lemma modules_unit_like: "unit_like ev up d tot (modules_unit ev up d tot)"
  unfolding unit_like_def
proof (intro allI impI)
  fix P Q c j
  assume ok: "step_ok ev up P Q" and p: "P j"
  show "ends_in (\<lambda>j'. \<exists>j2 m. P j2 \<and> j' = progress d tot m j2) Q (modules_unit ev up d tot c j)"
  proof (cases "modules_fetch up c")
    case (Inl e)
    then show ?thesis
      using step_ok_Q[OF ok p, of "GetModules c"] by (simp add: modules_unit_def Let_def)
  next
    case (Inr ms)
    then have "P (await_fetch ev (GetModules c) j)"
      using step_ok_P[OF ok p, of "GetModules c"] by simp
    then have "ends_in P Q (for_of (module_step ev up c) ms (await_fetch ev (GetModules c) j))"
      by (rule for_of_ends_in[where P = P]) (rule module_step_ok[OF ok])
    then show ?thesis
      using Inr unit_tail by (simp add: modules_unit_def Let_def)
  qed
qed

lemma syllabus_unit_like: "unit_like ev up d tot (syllabus_unit ev up d tot)"
  unfolding unit_like_def
proof (intro allI impI)
  fix P Q c j
  assume ok: "step_ok ev up P Q" and p: "P j"
  show "ends_in (\<lambda>j'. \<exists>j2 m. P j2 \<and> j' = progress d tot m j2) Q (syllabus_unit ev up d tot c j)"
  proof (cases "syllabus_fetch up c")
    case (Inl e)
    then show ?thesis
      using step_ok_Q[OF ok p, of "GetSyllabus c"] by (simp add: syllabus_unit_def Let_def)
  next
    case (Inr atts)
    then have "P (await_fetch ev (GetSyllabus c) j)"
      using step_ok_P[OF ok p, of "GetSyllabus c"] by simp
    then have "ends_in P Q (for_of (attachment_step ev up (c @ ''/Syllabus'')) atts
                 (await_fetch ev (GetSyllabus c) j))"
      by (rule for_of_ends_in[where P = P]) (rule attachment_step_ok[OF ok])
    then show ?thesis
      using Inr unit_tail by (simp add: syllabus_unit_def Let_def)
  qed
qed

lemma pages_unit_like: "unit_like ev up d tot (pages_unit ev up d tot)"
  unfolding unit_like_def
proof (intro allI impI)
  fix P Q c j
  assume ok: "step_ok ev up P Q" and p: "P j"
  show "ends_in (\<lambda>j'. \<exists>j2 m. P j2 \<and> j' = progress d tot m j2) Q (pages_unit ev up d tot c j)"
  proof (cases "pages_fetch up c")
    case (Inl e)
    then show ?thesis
      using step_ok_Q[OF ok p, of "GetPages c"] by (simp add: pages_unit_def Let_def)
  next
    case (Inr ps)
    then have "P (await_fetch ev (GetPages c) j)"
      using step_ok_P[OF ok p, of "GetPages c"] by simp
    then have "ends_in P Q (for_of (page_step ev up c) ps (await_fetch ev (GetPages c) j))"
      by (rule for_of_ends_in[where P = P]) (rule page_step_ok[OF ok])
    then show ?thesis
      using Inr unit_tail by (simp add: pages_unit_def Let_def)
  qed
qed

lemma submissions_unit_like: "unit_like ev up d tot (submissions_unit ev up d tot)"
  unfolding unit_like_def
proof (intro allI impI)
  fix P Q c j
  assume ok: "step_ok ev up P Q" and p: "P j"
  show "ends_in (\<lambda>j'. \<exists>j2 m. P j2 \<and> j' = progress d tot m j2) Q (submissions_unit ev up d tot c j)"
  proof (cases "assignments_fetch up c")
    case (Inl e)
    then show ?thesis
      using step_ok_Q[OF ok p, of "GetAssignments c"]
      by (simp add: submissions_unit_def Let_def)
  next
    case (Inr asgs)
    then have "P (await_fetch ev (GetAssignments c) j)"
      using step_ok_P[OF ok p, of "GetAssignments c"] by simp
    then have "ends_in P Q (for_of (assignment_step ev up c) asgs (await_fetch ev (GetAssignments c) j))"
      by (rule for_of_ends_in[where P = P]) (rule assignment_step_ok[OF ok])
    then show ?thesis
      using Inr unit_tail by (simp add: submissions_unit_def Let_def)
  qed
qed

lemma unit_like_step:
  assumes "unit_like ev up d tot unit" "step_ok ev up P Q" "P j"
  shows "ends_in (\<lambda>j'. \<exists>j2 m. P j2 \<and> j' = progress d tot m j2) Q (unit c j)"
  using assms unfolding unit_like_def by blast

lemma units_invariant:
  assumes ul: "unit_like ev up d tot unit" and ok: "step_ok ev up P Q"
    and prog: "\<And>j m. P j \<Longrightarrow> P (progress d tot m j)" and p: "P j"
  shows "ends_in P Q (for_of unit cs j)"
proof (rule for_of_ends_in[where P = P, OF p])
  fix c j assume "P j"
  then have "ends_in (\<lambda>j'. \<exists>j2 m. P j2 \<and> j' = progress d tot m j2) Q (unit c j)"
    by (rule unit_like_step[OF ul ok])
  then show "ends_in P Q (unit c j)"
    by (rule ends_in_mono) (use prog in auto)
qed

lemma jdone_await [simp]: "jdone (await_fetch ev rq j) = jdone j"
  by (simp add: await_fetch_def)

lemma jdone_append [simp]: "jdone (archive_append n st j) = jdone j"
  by (simp add: archive_append_def)

lemma jdone_progress [simp]: "jdone (progress d tot m j) = jdone j + 1"
  by (simp add: progress_def)

lemma jdone_finalize [simp]: "jdone (finalize ev d j) = jdone j"
  by (simp add: finalize_def Let_def)

lemma unit_count:
  assumes ul: "unit_like ev up d tot unit"
  shows "ends_in (\<lambda>j'. jdone j' = jdone j + 1) (\<lambda>j'. jdone j' = jdone j) (unit c j)"
proof -
  have ok: "step_ok ev up (\<lambda>x. jdone x = jdone j) (\<lambda>x. jdone x = jdone j)"
    by (simp add: step_ok_def)
  have "ends_in (\<lambda>j'. \<exists>j2 m. jdone j2 = jdone j \<and> j' = progress d tot m j2)
          (\<lambda>x. jdone x = jdone j) (unit c j)"
    by (rule unit_like_step[OF ul ok]) simp
  then show ?thesis
    by (rule ends_in_mono) auto
qed

lemma units_count:
  assumes ul: "unit_like ev up d tot unit"
  shows "ends_in (\<lambda>j'. jdone j' = jdone j + length cs) (\<lambda>j'. jdone j' < jdone j + length cs)
           (for_of unit cs j)"
proof (induction cs arbitrary: j)
  case Nil
  then show ?case by simp
next
  case (Cons c cs)
  show ?case
  proof (cases "unit c j")
    case (Pair r j1)
    show ?thesis
    proof (cases r)
      case None
      then have "jdone j1 = jdone j + 1" using unit_count[OF ul, of j c] Pair by simp
      then show ?thesis
        using Cons.IH[of j1] Pair None
        by (auto elim!: ends_in_mono)
    next
      case (Some e)
      then have "jdone j1 = jdone j" using unit_count[OF ul, of j c] Pair by simp
      then show ?thesis using Pair Some by simp
    qed
  qed
qed

lemma download_cases:
  assumes "d \<noteq> []" "sseClients s d \<noteq> None"
  obtains
    (modules) e j where "for_of (modules_unit ev up d (total_of sel)) (sel_modules sel) (job0 s) = (Some e, j)"
      "download ev up (Some d) sel s = Threw e j"
  | (syllabus) j1 e j where "for_of (modules_unit ev up d (total_of sel)) (sel_modules sel) (job0 s) = (None, j1)"
      "for_of (syllabus_unit ev up d (total_of sel)) (sel_syllabus sel) j1 = (Some e, j)"
      "download ev up (Some d) sel s = Threw e j"
  | (pages) j1 j2 e j where "for_of (modules_unit ev up d (total_of sel)) (sel_modules sel) (job0 s) = (None, j1)"
      "for_of (syllabus_unit ev up d (total_of sel)) (sel_syllabus sel) j1 = (None, j2)"
      "for_of (pages_unit ev up d (total_of sel)) (sel_pages sel) j2 = (Some e, j)"
      "download ev up (Some d) sel s = Threw e j"
  | (submissions) j1 j2 j3 e j where "for_of (modules_unit ev up d (total_of sel)) (sel_modules sel) (job0 s) = (None, j1)"
      "for_of (syllabus_unit ev up d (total_of sel)) (sel_syllabus sel) j1 = (None, j2)"
      "for_of (pages_unit ev up d (total_of sel)) (sel_pages sel) j2 = (None, j3)"
      "for_of (submissions_unit ev up d (total_of sel)) (sel_submissions sel) j3 = (Some e, j)"
      "download ev up (Some d) sel s = Threw e j"
  | (finalized) j1 j2 j3 j4 where "for_of (modules_unit ev up d (total_of sel)) (sel_modules sel) (job0 s) = (None, j1)"
      "for_of (syllabus_unit ev up d (total_of sel)) (sel_syllabus sel) j1 = (None, j2)"
      "for_of (pages_unit ev up d (total_of sel)) (sel_pages sel) j2 = (None, j3)"
      "for_of (submissions_unit ev up d (total_of sel)) (sel_submissions sel) j3 = (None, j4)"
      "download ev up (Some d) sel s = Finalized (finalize ev d j4)"
proof -
  let ?t = "total_of sel"
  obtain r1 j1 where l1: "for_of (modules_unit ev up d ?t) (sel_modules sel) (job0 s) = (r1, j1)"
    by (cases "for_of (modules_unit ev up d ?t) (sel_modules sel) (job0 s)")
  obtain r2 j2 where l2: "for_of (syllabus_unit ev up d ?t) (sel_syllabus sel) j1 = (r2, j2)"
    by (cases "for_of (syllabus_unit ev up d ?t) (sel_syllabus sel) j1")
  obtain r3 j3 where l3: "for_of (pages_unit ev up d ?t) (sel_pages sel) j2 = (r3, j3)"
    by (cases "for_of (pages_unit ev up d ?t) (sel_pages sel) j2")
  obtain r4 j4 where l4: "for_of (submissions_unit ev up d ?t) (sel_submissions sel) j3 = (r4, j4)"
    by (cases "for_of (submissions_unit ev up d ?t) (sel_submissions sel) j3")
  have unfold: "download ev up (Some d) sel s =
      (case r1 of Some e \<Rightarrow> Threw e j1 | None \<Rightarrow>
       (case r2 of Some e \<Rightarrow> Threw e j2 | None \<Rightarrow>
        (case r3 of Some e \<Rightarrow> Threw e j3 | None \<Rightarrow>
         (case r4 of Some e \<Rightarrow> Threw e j4 | None \<Rightarrow> Finalized (finalize ev d j4)))))"
    using assms l1 l2 l3 l4
    by (simp add: download_def Let_def job0_def split: option.splits)
  show ?thesis
  proof (cases r1)
    case (Some e)
    then show ?thesis using modules[of e j1] l1 unfold by simp
  next
    case n1: None
    show ?thesis
    proof (cases r2)
      case (Some e)
      then show ?thesis using syllabus[of j1 e j2] l1 l2 unfold n1 by simp
    next
      case n2: None
      show ?thesis
      proof (cases r3)
        case (Some e)
        then show ?thesis using pages[of j1 j2 e j3] l1 l2 l3 unfold n1 n2 by simp
      next
        case n3: None
        show ?thesis
        proof (cases r4)
          case (Some e)
          then show ?thesis
            using submissions[of j1 j2 j3 e j4] l1 l2 l3 l4 unfold n1 n2 n3 by simp
        next
          case n4: None
          then show ?thesis
            using finalized[of j1 j2 j3 j4] l1 l2 l3 l4 unfold n1 n2 n3 by simp
        qed
      qed
    qed
  qed
qed

lemma download_invariant:
  assumes valid: "d \<noteq> []" "sseClients s d \<noteq> None"
    and ok: "step_ok ev up P Q"
    and prog: "\<And>j m. P j \<Longrightarrow> P (progress d (total_of sel) m j)"
    and init: "P (job0 s)"
  shows "case download ev up (Some d) sel s of
           Status400 \<Rightarrow> False
         | Threw e j \<Rightarrow> Q j
         | Finalized j \<Rightarrow> \<exists>j4. P j4 \<and> j = finalize ev d j4"
proof -
  have inv: "\<And>unit cs j. unit_like ev up d (total_of sel) unit \<Longrightarrow> P j \<Longrightarrow>
      ends_in P Q (for_of unit cs j)"
    by (rule units_invariant[OF _ ok]) (use prog in auto)
  from valid show ?thesis
  proof (cases rule: download_cases[where ev = ev and up = up and sel = sel])
    case (modules e j)
    then show ?thesis using inv[OF modules_unit_like init, where cs = "sel_modules sel"] by simp
  next
    case (syllabus j1 e j)
    have "P j1" using inv[OF modules_unit_like init, where cs = "sel_modules sel"] syllabus by simp
    then show ?thesis using inv[OF syllabus_unit_like, where j = j1 and cs = "sel_syllabus sel"] syllabus by simp
  next
    case (pages j1 j2 e j)
    have "P j1" using inv[OF modules_unit_like init, where cs = "sel_modules sel"] pages by simp
    then have "P j2" using inv[OF syllabus_unit_like, where j = j1 and cs = "sel_syllabus sel"] pages by simp
    then show ?thesis using inv[OF pages_unit_like, where j = j2 and cs = "sel_pages sel"] pages by simp
  next
    case (submissions j1 j2 j3 e j)
    have "P j1" using inv[OF modules_unit_like init, where cs = "sel_modules sel"] submissions by simp
    then have "P j2" using inv[OF syllabus_unit_like, where j = j1 and cs = "sel_syllabus sel"] submissions by simp
    then have "P j3" using inv[OF pages_unit_like, where j = j2 and cs = "sel_pages sel"] submissions by simp
    then show ?thesis
      using inv[OF submissions_unit_like, where j = j3 and cs = "sel_submissions sel"] submissions by simp
  next
    case (finalized j1 j2 j3 j4)
    have "P j1" using inv[OF modules_unit_like init, where cs = "sel_modules sel"] finalized by simp
    then have "P j2" using inv[OF syllabus_unit_like, where j = j1 and cs = "sel_syllabus sel"] finalized by simp
    then have "P j3" using inv[OF pages_unit_like, where j = j2 and cs = "sel_pages sel"] finalized by simp
    then have "P j4"
      using inv[OF submissions_unit_like, where j = j3 and cs = "sel_submissions sel"] finalized by simp
    then show ?thesis using finalized by auto
  qed
qed

lemma download_count:
  assumes valid: "d \<noteq> []" "sseClients s d \<noteq> None"
  shows "case download ev up (Some d) sel s of
           Status400 \<Rightarrow> False
         | Threw e j \<Rightarrow> jdone j < total_of sel
         | Finalized j \<Rightarrow> jdone j = total_of sel"
proof -
  let ?t = "total_of sel"
  note c1 = units_count[OF modules_unit_like, where ev = ev and up = up and d = d and tot = ?t
      and j = "job0 s" and cs = "sel_modules sel"]
  from valid show ?thesis
  proof (cases rule: download_cases[where ev = ev and up = up and sel = sel])
    case (modules e j)
    then show ?thesis using c1 by (simp add: total_of_def job0_def)
  next
    case (syllabus j1 e j)
    then show ?thesis
      using c1 units_count[OF syllabus_unit_like, where ev = ev and up = up and d = d and tot = ?t and j = j1 and cs = "sel_syllabus sel"]
      by (simp add: total_of_def job0_def)
  next
    case (pages j1 j2 e j)
    then show ?thesis
      using c1 units_count[OF syllabus_unit_like, where ev = ev and up = up and d = d and tot = ?t and j = j1 and cs = "sel_syllabus sel"]
        units_count[OF pages_unit_like, where ev = ev and up = up and d = d and tot = ?t and j = j2 and cs = "sel_pages sel"]
      by (simp add: total_of_def job0_def)
  next
    case (submissions j1 j2 j3 e j)
    then show ?thesis
      using c1 units_count[OF syllabus_unit_like, where ev = ev and up = up and d = d and tot = ?t and j = j1 and cs = "sel_syllabus sel"]
        units_count[OF pages_unit_like, where ev = ev and up = up and d = d and tot = ?t and j = j2 and cs = "sel_pages sel"]
        units_count[OF submissions_unit_like, where ev = ev and up = up and d = d and tot = ?t and j = j3 and cs = "sel_submissions sel"]
      by (simp add: total_of_def job0_def)
  next
    case (finalized j1 j2 j3 j4)
    then show ?thesis
      using c1 units_count[OF syllabus_unit_like, where ev = ev and up = up and d = d and tot = ?t and j = j1 and cs = "sel_syllabus sel"]
        units_count[OF pages_unit_like, where ev = ev and up = up and d = d and tot = ?t and j = j2 and cs = "sel_pages sel"]
        units_count[OF submissions_unit_like, where ev = ev and up = up and d = d and tot = ?t and j = j3 and cs = "sel_submissions sel"]
      by (simp add: total_of_def job0_def)
  qed
qed

lemma fetched_append [simp]: "fetched (archive_append n st j) = fetched j"
  by (simp add: archive_append_def)

lemma fetched_progress [simp]: "fetched (progress d tot m j) = fetched j"
  by (simp add: progress_def)

lemma fetched_await [simp]: "fetched (await_fetch ev rq j) = fetched j @ [rq]"
  by (simp add: await_fetch_def)

lemma fetched_finalize [simp]: "fetched (finalize ev d j) = fetched j"
  by (simp add: finalize_def Let_def)

lemma for_of_append:
  "for_of body (xs @ ys) j =
     (case for_of body xs j of (Some e, j') \<Rightarrow> (Some e, j') | (None, j') \<Rightarrow> for_of body ys j')"
  by (induction xs arbitrary: j) (auto split: prod.splits option.splits)

lemma for_of_map: "for_of body (map f xs) j = for_of (\<lambda>x. body (f x)) xs j"
  by (induction xs arbitrary: j) (auto split: prod.splits option.splits)

lemma download_as_units:
  assumes "d \<noteq> []" "sseClients s d \<noteq> None"
  shows "download ev up (Some d) sel s =
     (case for_of (unit_step ev up d (total_of sel)) (units sel) (job0 s) of
        (Some e, j) \<Rightarrow> Threw e j
      | (None, j) \<Rightarrow> Finalized (finalize ev d j))"
proof -
  have u: "(\<lambda>x. unit_step ev up d t (Modules, x)) = modules_unit ev up d t"
    "(\<lambda>x. unit_step ev up d t (Syllabus, x)) = syllabus_unit ev up d t"
    "(\<lambda>x. unit_step ev up d t (Pages, x)) = pages_unit ev up d t"
    "(\<lambda>x. unit_step ev up d t (Submissions, x)) = submissions_unit ev up d t" for t
    by (simp_all add: fun_eq_iff)
  show ?thesis
    using assms
    by (simp add: download_def Let_def job0_def units_def for_of_append for_of_map u
        split: prod.splits option.splits)
qed

lemma attachment_step_throws:
  "(fst (attachment_step ev up folder a j) \<noteq> None) = attachment_throws up a"
  by (simp add: attachment_step_def attachment_throws_def Let_def
      split: option.splits sum.splits)

lemma for_of_throws:
  assumes "\<And>x j. (fst (body x j) \<noteq> None) = T x"
  shows "(fst (for_of body xs j) \<noteq> None) = list_ex T xs"
proof (induction xs arbitrary: j)
  case Nil
  then show ?case by simp
next
  case (Cons x xs)
  have t: "(fst (body x j) \<noteq> None) = T x" using assms by simp
  obtain r j1 where b: "body x j = (r, j1)" by (cases "body x j")
  show ?case
  proof (cases r)
    case None
    then have "\<not> T x" using t b by simp
    then show ?thesis using Cons b None by simp
  next
    case (Some e)
    then have "T x" using t b by simp
    then show ?thesis using b Some by simp
  qed
qed

lemma attachments_throw:
  "(fst (for_of (attachment_step ev up folder) atts j) \<noteq> None) =
     list_ex (attachment_throws up) atts"
  by (rule for_of_throws) (rule attachment_step_throws)

lemma for_of_first_throw:
  assumes t: "\<And>x j. (fst (body x j) \<noteq> None) = T x"
    and c: "\<And>x j. ends_in (\<lambda>j'. jdone j' = jdone j + 1) (\<lambda>j'. jdone j' = jdone j) (body x j)"
  shows "ends_in (\<lambda>j'. \<not> list_ex T xs \<and> jdone j' = jdone j + length xs)
           (\<lambda>j'. list_ex T xs \<and> jdone j' = jdone j + length (takeWhile (\<lambda>x. \<not> T x) xs))
           (for_of body xs j)"
proof (induction xs arbitrary: j)
  case Nil
  then show ?case by simp
next
  case (Cons x xs)
  obtain r j1 where b: "body x j = (r, j1)" by (cases "body x j")
  show ?case
  proof (cases r)
    case None
    then have nt: "\<not> T x" using t[of x j] b by simp
    have "jdone j1 = jdone j + 1" using c[of j x] b None by simp
    then show ?thesis
      using Cons.IH[of j1] b None nt by (auto elim!: ends_in_mono)
  next
    case (Some e)
    then have "T x" using t[of x j] b by simp
    moreover have "jdone j1 = jdone j" using c[of j x] b Some by simp
    ultimately show ?thesis using b Some by simp
  qed
qed

lemma module_item_throws:
  "(fst (module_item ev up c safeMod it j) \<noteq> None) = item_throws up it"
  by (simp add: module_item_def module_file_def item_throws_def Let_def
      split: option.splits sum.splits)

lemma module_step_throws:
  "(fst (module_step ev up c m j) \<noteq> None) = module_throws up m"
proof (cases "mod_name m = None \<or> mod_items m = None")
  case True
  then show ?thesis
    by (auto simp: module_step_None module_throws_def split: option.splits)
next
  case False
  then obtain nm items where s: "mod_name m = Some nm" "mod_items m = Some items" by auto
  have "(fst (for_of (module_item ev up c (replace_separators nm)) items j) \<noteq> None) =
      list_ex (item_throws up) items"
    by (rule for_of_throws) (rule module_item_throws)
  then show ?thesis
    unfolding module_step_Some[OF s] by (simp add: module_throws_def s)
qed

lemma page_step_throws:
  "(fst (page_step ev up c p j) \<noteq> None) = page_throws up c p"
proof (cases "page_title p")
  case None
  then show ?thesis by (simp add: page_step_None page_throws_def)
next
  case (Some title)
  show ?thesis
  proof (cases "page_attachments_fetch up c (page_url p)")
    case (Inl e)
    then show ?thesis by (simp add: page_step_Some[OF Some] page_throws_def Some)
  next
    case (Inr atts)
    then show ?thesis
      using attachments_throw[of ev up "c @ ''/Pages/'' @ replace_separators title" atts
          "await_fetch ev (GetPageAttachments c (page_url p)) j"]
      by (simp add: page_step_Some[OF Some] page_throws_def Some)
  qed
qed

lemma assignment_step_throws:
  "(fst (assignment_step ev up c a j) \<noteq> None) = assignment_throws up c a"
proof (cases "asg_id a")
  case None
  then show ?thesis by (simp add: assignment_step_def assignment_throws_def)
next
  case (Some aid)
  show ?thesis
  proof (cases "submissions_fetch up c aid")
    case (Inl e)
    then show ?thesis
      using Some by (simp add: assignment_step_def assignment_throws_def Let_def)
  next
    case (Inr subs)
    show ?thesis
    proof (cases subs)
      case Nil
      then show ?thesis
        using Inr Some by (simp add: assignment_step_def assignment_throws_def Let_def)
    next
      case (Cons sub rest)
      show ?thesis
        using Inr Cons Some
          attachments_throw[of ev up "c @ ''/Submissions/'' @ asg_name a" _
            "await_fetch ev (GetSubmissions c aid) j"]
        by (cases "sub_attachments sub")
           (simp_all add: assignment_step_def assignment_throws_def Let_def)
    qed
  qed
qed

lemma unit_tail_fst:
  "fst (case r of (Some e, j2) \<Rightarrow> (Some e, j2) | (None, j2) \<Rightarrow> (None, f j2)) = fst r"
  by (cases r) (auto split: option.splits)

lemma unit_step_throws:
  "(fst (unit_step ev up d tot u j) \<noteq> None) = unit_throws up u"
proof (cases u)
  case (Pair cat c)
  have ms: "(fst (for_of (module_step ev up c) xs j1) \<noteq> None) = list_ex (module_throws up) xs"
    for xs j1
    by (rule for_of_throws) (rule module_step_throws)
  have ps: "(fst (for_of (page_step ev up c) xs j1) \<noteq> None) = list_ex (page_throws up c) xs"
    for xs j1
    by (rule for_of_throws) (rule page_step_throws)
  have ag: "(fst (for_of (assignment_step ev up c) xs j1) \<noteq> None) =
      list_ex (assignment_throws up c) xs" for xs j1
    by (rule for_of_throws) (rule assignment_step_throws)
  show ?thesis
  proof (cases cat)
    case Modules
    then show ?thesis
      using Pair ms
      by (cases "modules_fetch up c") (simp_all add: modules_unit_def Let_def unit_tail_fst)
  next
    case Syllabus
    then show ?thesis
      using Pair attachments_throw[of ev up "c @ ''/Syllabus''"]
      by (cases "syllabus_fetch up c") (simp_all add: syllabus_unit_def Let_def unit_tail_fst)
  next
    case Pages
    then show ?thesis
      using Pair ps
      by (cases "pages_fetch up c") (simp_all add: pages_unit_def Let_def unit_tail_fst)
  next
    case Submissions
    then show ?thesis
      using Pair ag
      by (cases "assignments_fetch up c")
         (simp_all add: submissions_unit_def Let_def unit_tail_fst)
  qed
qed

lemma unit_step_count:
  "ends_in (\<lambda>j'. jdone j' = jdone j + 1) (\<lambda>j'. jdone j' = jdone j) (unit_step ev up d tot u j)"
proof (cases u)
  case (Pair cat c)
  show ?thesis
    using unit_count[OF modules_unit_like, of j ev up d tot c]
      unit_count[OF syllabus_unit_like, of j ev up d tot c]
      unit_count[OF pages_unit_like, of j ev up d tot c]
      unit_count[OF submissions_unit_like, of j ev up d tot c]
    by (cases cat) (simp_all add: Pair)
qed

lemma length_units: "length (units sel) = total_of sel"
  by (simp add: units_def total_of_def)

lemma download_first_throw:
  assumes "d \<noteq> []" "sseClients s d \<noteq> None"
  shows "case download ev up (Some d) sel s of
           Status400 \<Rightarrow> False
         | Threw e j \<Rightarrow>
             list_ex (unit_throws up) (units sel) \<and>
             jdone j = length (takeWhile (\<lambda>u. \<not> unit_throws up u) (units sel))
         | Finalized j \<Rightarrow> \<not> list_ex (unit_throws up) (units sel)"
proof -
  have "ends_in (\<lambda>j'. \<not> list_ex (unit_throws up) (units sel) \<and>
                     jdone j' = jdone (job0 s) + length (units sel))
           (\<lambda>j'. list_ex (unit_throws up) (units sel) \<and>
                 jdone j' = jdone (job0 s) +
                   length (takeWhile (\<lambda>u. \<not> unit_throws up u) (units sel)))
           (for_of (unit_step ev up d (total_of sel)) (units sel) (job0 s))"
    by (rule for_of_first_throw) (rule unit_step_throws, rule unit_step_count)
  then show ?thesis
    unfolding download_as_units[OF assms]
    by (cases "for_of (unit_step ev up d (total_of sel)) (units sel) (job0 s)")
       (auto simp: job0_def split: option.splits)
qed



lemma listing_failure_throws:
  assumes "d \<noteq> []" "sseClients s d \<noteq> None"
    and "(c \<in> set (sel_modules sel) \<and> modules_fetch up c = Inl e) \<or>
         (c \<in> set (sel_syllabus sel) \<and> syllabus_fetch up c = Inl e) \<or>
         (c \<in> set (sel_pages sel) \<and> pages_fetch up c = Inl e) \<or>
         (c \<in> set (sel_submissions sel) \<and> assignments_fetch up c = Inl e)"
  shows "\<exists>e' j'. download ev up (Some d) sel s = Threw e' j' \<and> jdone j' < total_of sel"
proof -
  have "\<exists>u\<in>set (units sel). unit_throws up u"
    using assms(3)
  proof (elim disjE conjE)
    assume "c \<in> set (sel_modules sel)" "modules_fetch up c = Inl e"
    then show ?thesis by (intro bexI[of _ "(Modules, c)"]) (simp_all add: units_def)
  next
    assume "c \<in> set (sel_syllabus sel)" "syllabus_fetch up c = Inl e"
    then show ?thesis by (intro bexI[of _ "(Syllabus, c)"]) (simp_all add: units_def)
  next
    assume "c \<in> set (sel_pages sel)" "pages_fetch up c = Inl e"
    then show ?thesis by (intro bexI[of _ "(Pages, c)"]) (simp_all add: units_def)
  next
    assume "c \<in> set (sel_submissions sel)" "assignments_fetch up c = Inl e"
    then show ?thesis by (intro bexI[of _ "(Submissions, c)"]) (simp_all add: units_def)
  qed
  then have t: "list_ex (unit_throws up) (units sel)"
    by (simp add: list_ex_iff)
  show ?thesis
    using download_first_throw[OF assms(1,2), where ev = ev and up = up and sel = sel]
      download_count[OF assms(1,2), where ev = ev and up = up and sel = sel] t
    by (cases "download ev up (Some d) sel s") simp_all
qed

section \<open>Failures in the download handler\<close>

lemmas demo_defs = demo_up_def demo_sse_def quiet_def select_def

lemmas handler_defs = download_def total_of_def modules_unit_def module_step_def module_item_def
  module_file_def
  syllabus_unit_def pages_unit_def page_step_def submissions_unit_def assignment_step_def
  attachment_step_def await_fetch_def archive_append_def progress_def sendProgress_def
  finalize_def on_end_def replace_separators_def Let_def

text \<open>
  Claim C3, amended. A failure of a category's listing call is not caught: the unit ends at
  the failed request, which changes neither \<open>done\<close> nor what the handler has written to the
  progress channel, and the job is aborted: a job one of whose selected pairs has a failing
  listing call throws. A job that throws ends with \<open>done\<close> below \<open>total\<close>; \<open>done\<close> equals
  \<open>total\<close> exactly for the jobs whose archive is finalized.
\<close>

theorem unit_failure_is_not_caught:
  "(modules_fetch up c = Inl e \<longrightarrow>
      modules_unit ev up d tot c j = (Some e, await_fetch ev (GetModules c) j)) \<and>
   (syllabus_fetch up c = Inl e \<longrightarrow>
      syllabus_unit ev up d tot c j = (Some e, await_fetch ev (GetSyllabus c) j)) \<and>
   (pages_fetch up c = Inl e \<longrightarrow>
      pages_unit ev up d tot c j = (Some e, await_fetch ev (GetPages c) j)) \<and>
   (assignments_fetch up c = Inl e \<longrightarrow>
      submissions_unit ev up d tot c j = (Some e, await_fetch ev (GetAssignments c) j)) \<and>
   jdone (await_fetch ev rq j) = jdone j \<and>
   written (sse (await_fetch ev rq j)) =
     written (foldl apply_event (sse j) (arrivals ev (length (fetched j)))) \<and>
   (d \<noteq> [] \<and> sseClients s d \<noteq> None \<longrightarrow>
      (case download ev up (Some d) sel s of
         Status400 \<Rightarrow> False
       | Threw e j \<Rightarrow> jdone j < total_of sel
       | Finalized j \<Rightarrow> jdone j = total_of sel)) \<and>
   (d \<noteq> [] \<and> sseClients s d \<noteq> None \<and>
    ((c \<in> set (sel_modules sel) \<and> modules_fetch up c = Inl e) \<or>
     (c \<in> set (sel_syllabus sel) \<and> syllabus_fetch up c = Inl e) \<or>
     (c \<in> set (sel_pages sel) \<and> pages_fetch up c = Inl e) \<or>
     (c \<in> set (sel_submissions sel) \<and> assignments_fetch up c = Inl e)) \<longrightarrow>
      (\<exists>e' j'. download ev up (Some d) sel s = Threw e' j' \<and> jdone j' < total_of sel))"
proof -
  have a: "(modules_fetch up c = Inl e \<longrightarrow>
      modules_unit ev up d tot c j = (Some e, await_fetch ev (GetModules c) j)) \<and>
   (syllabus_fetch up c = Inl e \<longrightarrow>
      syllabus_unit ev up d tot c j = (Some e, await_fetch ev (GetSyllabus c) j)) \<and>
   (pages_fetch up c = Inl e \<longrightarrow>
      pages_unit ev up d tot c j = (Some e, await_fetch ev (GetPages c) j)) \<and>
   (assignments_fetch up c = Inl e \<longrightarrow>
      submissions_unit ev up d tot c j = (Some e, await_fetch ev (GetAssignments c) j)) \<and>
   jdone (await_fetch ev rq j) = jdone j \<and>
   written (sse (await_fetch ev rq j)) =
     written (foldl apply_event (sse j) (arrivals ev (length (fetched j)))) \<and>
   (d \<noteq> [] \<and> sseClients s d \<noteq> None \<longrightarrow>
      (case download ev up (Some d) sel s of
         Status400 \<Rightarrow> False
       | Threw e j \<Rightarrow> jdone j < total_of sel
       | Finalized j \<Rightarrow> jdone j = total_of sel))"
    using download_count[where ev = ev and up = up and sel = sel and d = d and s = s]
    by (simp add: modules_unit_def syllabus_unit_def pages_unit_def submissions_unit_def Let_def
        await_fetch_def)
  have b: "\<exists>e' j'. download ev up (Some d) sel s = Threw e' j' \<and> jdone j' < total_of sel"
    if "d \<noteq> []" "sseClients s d \<noteq> None"
      "(c \<in> set (sel_modules sel) \<and> modules_fetch up c = Inl e) \<or>
       (c \<in> set (sel_syllabus sel) \<and> syllabus_fetch up c = Inl e) \<or>
       (c \<in> set (sel_pages sel) \<and> pages_fetch up c = Inl e) \<or>
       (c \<in> set (sel_submissions sel) \<and> assignments_fetch up c = Inl e)"
    using listing_failure_throws[OF that] .
  show ?thesis
    using a b by blast
qed

theorem unit_failure_is_not_caught_witness:
  "syllabus_unit quiet demo_up ''job1'' 2 ''404'' (job0 demo_sse) =
     (Some (Thrown ''atts is not iterable''),
      \<lparr>jdone = 0, archive = [], fetched = [GetSyllabus ''404''], sse = demo_sse\<rparr>) \<and>
   (\<exists>e' j'. download quiet demo_up (Some ''job1'') (select [] [''404'', ''201''] [] []) demo_sse =
              Threw e' j' \<and> jdone j' < 2)"
proof -
  have f: "syllabus_fetch demo_up ''404'' = Inl (Thrown ''atts is not iterable'')"
    by (simp add: demo_up_def)
  have v: "''job1'' \<noteq> []" "sseClients demo_sse ''job1'' \<noteq> None"
    "''404'' \<in> set (sel_syllabus (select [] [''404'', ''201''] [] []))"
    "total_of (select [] [''404'', ''201''] [] []) = 2"
    by (simp_all add: demo_sse_def select_def total_of_def)
  show ?thesis
    using unit_failure_is_not_caught[where up = demo_up and c = "''404''"
        and e = "Thrown ''atts is not iterable''" and ev = quiet and d = "''job1''" and tot = 2
        and j = "job0 demo_sse" and s = demo_sse and sel = "select [] [''404'', ''201''] [] []"]
      f v
    by (simp add: await_fetch_def job0_def quiet_def)
qed

text \<open>
  Claim C3 as stated fails: the syllabus listing of course 404 fails, and the job of two
  units ends with \<open>done\<close> at 0 and nothing written to the progress channel.
\<close>

theorem listing_failure_counterexample:
  "download quiet demo_up (Some ''job1'') (select [] [''404'', ''201''] [] []) demo_sse =
     Threw (Thrown ''atts is not iterable'')
       \<lparr>jdone = 0, archive = [], fetched = [GetSyllabus ''404''], sse = demo_sse\<rparr>"
  by (simp add: demo_defs handler_defs)

section \<open>Validation of the download request\<close>

text \<open>
  Claim C5, amended. A download request is rejected with status 400, before any archive
  output or fetching, exactly when its job id is missing, empty or has no open progress
  channel. A selection with zero pairs is not rejected by the server: with an open channel
  the empty archive is finalized at once, no request issued. It is the browser client that
  refuses to submit a selection with zero pairs.
\<close>

theorem download_rejects_unknown_id:
  "(download ev up did sel s = Status400) =
     (case did of None \<Rightarrow> True | Some d \<Rightarrow> d = [] \<or> sseClients s d = None) \<and>
   (total_of sel = 0 \<and> d \<noteq> [] \<and> sseClients s d \<noteq> None \<longrightarrow>
      download ev up (Some d) sel s = Finalized (finalize ev d (job0 s))) \<and>
   downloadBtn_refuses sel = (total_of sel = 0)"
proof -
  have a: "(download ev up did sel s = Status400) =
     (case did of None \<Rightarrow> True | Some d \<Rightarrow> d = [] \<or> sseClients s d = None)"
  proof (cases did)
    case None
    then show ?thesis by (simp add: download_def)
  next
    case (Some d')
    show ?thesis
    proof (cases "d' = [] \<or> sseClients s d' = None")
      case True
      then show ?thesis using Some by (auto simp: download_def)
    next
      case False
      then have v: "d' \<noteq> []" "sseClients s d' \<noteq> None" by auto
      from v have "download ev up (Some d') sel s \<noteq> Status400"
        by (cases rule: download_cases[where ev = ev and up = up and sel = sel]) simp_all
      then show ?thesis using Some False by simp
    qed
  qed
  have b: "total_of sel = 0 \<and> d \<noteq> [] \<and> sseClients s d \<noteq> None \<longrightarrow>
      download ev up (Some d) sel s = Finalized (finalize ev d (job0 s))"
    by (auto simp: total_of_def download_def job0_def)
  have c: "downloadBtn_refuses sel = (total_of sel = 0)"
    by (auto simp: downloadBtn_refuses_def total_of_def)
  show ?thesis using a b c by blast
qed

theorem download_rejects_unknown_id_witness:
  "download quiet demo_up (Some ''job2'') (select [''101''] [] [] []) demo_sse = Status400 \<and>
   download quiet demo_up None (select [''101''] [] [] []) demo_sse = Status400 \<and>
   download quiet demo_up (Some ''job1'') (select [] [] [] []) demo_sse =
     Finalized (finalize quiet ''job1'' (job0 demo_sse)) \<and>
   downloadBtn_refuses (select [] [] [] [])"
  using download_rejects_unknown_id[where ev = quiet and up = demo_up and did = "Some ''job2''"
      and sel = "select [''101''] [] [] []" and s = demo_sse]
    download_rejects_unknown_id[where ev = quiet and up = demo_up and did = None
      and sel = "select [''101''] [] [] []" and s = demo_sse]
    download_rejects_unknown_id[where ev = quiet and up = demo_up and d = "''job1''"
      and sel = "select [] [] [] []" and s = demo_sse]
  by (simp add: demo_sse_def select_def total_of_def)

text \<open>
  Claim C5 as stated fails: for the empty selection and an open channel the server
  finalizes an empty archive and writes the terminal event.
\<close>

theorem empty_selection_counterexample:
  "download quiet demo_up (Some ''job1'') (select [] [] [] []) demo_sse =
     Finalized \<lparr>jdone = 0, archive = [], fetched = [],
       sse = \<lparr>sseClients = Map.empty, written = [(0, Newline), (0, DoneEvent)], ended = [0],
              opened = 1\<rparr>\<rparr>"
  by (simp add: demo_defs handler_defs)

section \<open>Progress events for an unregistered job id\<close>

text \<open>
  Claim C10. \<open>sendProgress\<close> for a job id with no registered progress channel, never opened
  or removed by the close listener, returns the channels unchanged: nothing is written. The
  handler's \<open>done++; sendProgress(...)\<close> then only increments \<open>done\<close>, and the download goes on.
\<close>

theorem sendProgress_unregistered_is_noop:
  "(sseClients s i = None \<longrightarrow> sendProgress i dn tot msg s = s) \<and>
   sendProgress i dn tot msg (events_close i s) = events_close i s \<and>
   sendProgress i dn tot msg \<lparr>sseClients = Map.empty, written = [], ended = [], opened = 0\<rparr> =
     \<lparr>sseClients = Map.empty, written = [], ended = [], opened = 0\<rparr> \<and>
   (sseClients (sse j) i = None \<longrightarrow> progress i tot msg j = j\<lparr>jdone := jdone j + 1\<rparr>)"
  by (simp add: sendProgress_def events_close_def progress_def)

theorem sendProgress_unregistered_is_noop_witness:
  "sendProgress ''job2'' 1 3 ''Modules for 101'' demo_sse = demo_sse \<and>
   sendProgress ''job1'' 1 3 ''Modules for 101'' (events_close ''job1'' demo_sse) =
     events_close ''job1'' demo_sse"
proof -
  have n: "sseClients demo_sse ''job2'' = None" by (simp add: demo_sse_def)
  show ?thesis
    using sendProgress_unregistered_is_noop[where s = demo_sse and i = "''job2''" and dn = 1
        and tot = 3 and msg = "''Modules for 101''"] n
      sendProgress_unregistered_is_noop[where s = demo_sse and i = "''job1''" and dn = 1
        and tot = 3 and msg = "''Modules for 101''"]
    by simp
qed

section \<open>Archive paths\<close>

lemma ends_in_same: "ends_in P P r = P (snd r)"
  by (cases r) (auto simp: ends_in_def split: option.splits)

lemma archive_await [simp]: "archive (await_fetch ev rq j) = archive j"
  by (simp add: await_fetch_def)

lemma archive_append_entries [simp]: "archive (archive_append n st j) = archive j @ [(n, st)]"
  by (simp add: archive_append_def)

lemma module_item_entries:
  assumes "mod_name m = Some nm" "mod_items m = Some items" "it \<in> set items"
    and "\<forall>e\<in>set (archive j). e \<in> A \<or> is_module_entry up c m (fst e)"
  shows "ends_in (\<lambda>j'. \<forall>e\<in>set (archive j'). e \<in> A \<or> is_module_entry up c m (fst e))
           (\<lambda>j'. \<forall>e\<in>set (archive j'). e \<in> A \<or> is_module_entry up c m (fst e))
           (module_item ev up c (replace_separators nm) it j)"
proof (cases "content_id it")
  case None
  then show ?thesis using assms by (simp add: module_item_def split: option.splits)
next
  case (Some n)
  show ?thesis
  proof (cases "file_fetch up n")
    case (Inl e)
    then show ?thesis
      using assms Some by (simp add: module_item_def module_file_def Let_def split: option.splits)
  next
    case (Inr meta)
    have "is_module_entry up c m
            (c @ ''/Modules/'' @ replace_separators nm @ ''/'' @ display_name meta)"
      unfolding is_module_entry_def using assms(1,2,3) Some Inr
      by (simp, intro bexI[of _ it]) simp_all
    then show ?thesis
      using assms(4) Some Inr
      by (auto simp: module_item_def module_file_def Let_def split: sum.splits option.splits)
  qed
qed

lemma module_step_entries:
  assumes "\<forall>e\<in>set (archive j). e \<in> A \<or> is_module_entry up c m (fst e)"
  shows "\<forall>e\<in>set (archive (snd (module_step ev up c m j))). e \<in> A \<or> is_module_entry up c m (fst e)"
proof (cases "mod_name m = None \<or> mod_items m = None")
  case True
  then show ?thesis using assms by (simp add: module_step_None)
next
  case False
  then obtain nm items where s: "mod_name m = Some nm" "mod_items m = Some items" by auto
  let ?P = "\<lambda>j'. \<forall>e\<in>set (archive j'). e \<in> A \<or> is_module_entry up c m (fst e)"
  have "ends_in ?P ?P (module_step ev up c m j)"
    unfolding module_step_Some[OF s]
    by (rule for_of_ends_in[where P = ?P, OF assms]) (rule module_item_entries[OF s])
  then show ?thesis
    by (simp only: ends_in_same)
qed

lemma attachment_step_entries:
  assumes "a \<in> set atts"
    and "\<forall>e\<in>set (archive j). e \<in> A \<or> (\<exists>a\<in>set atts. fst e = folder @ ''/'' @ att_filename a)"
  shows "ends_in (\<lambda>j'. \<forall>e\<in>set (archive j'). e \<in> A \<or> (\<exists>a\<in>set atts. fst e = folder @ ''/'' @ att_filename a))
           (\<lambda>j'. \<forall>e\<in>set (archive j'). e \<in> A \<or> (\<exists>a\<in>set atts. fst e = folder @ ''/'' @ att_filename a))
           (attachment_step ev up folder a j)"
  using assms by (auto simp: attachment_step_def Let_def split: sum.splits option.splits)

lemma page_step_entries:
  assumes "\<forall>e\<in>set (archive j). e \<in> A \<or> is_page_entry up c p (fst e)"
  shows "\<forall>e\<in>set (archive (snd (page_step ev up c p j))). e \<in> A \<or> is_page_entry up c p (fst e)"
proof (cases "page_title p")
  case None
  then show ?thesis using assms by (simp add: page_step_None)
next
  case (Some title)
  show ?thesis
  proof (cases "page_attachments_fetch up c (page_url p)")
    case (Inl e)
    then show ?thesis using assms by (simp add: page_step_Some[OF Some])
  next
    case (Inr atts)
    let ?folder = "c @ ''/Pages/'' @ replace_separators title"
    let ?P = "\<lambda>j'. \<forall>e\<in>set (archive j').
        e \<in> A \<or> (\<exists>a\<in>set atts. fst e = ?folder @ ''/'' @ att_filename a)"
    have eq: "\<And>name. is_page_entry up c p name =
        (\<exists>a\<in>set atts. name = ?folder @ ''/'' @ att_filename a)"
      by (simp add: is_page_entry_def Inr Some)
    have "?P (await_fetch ev (GetPageAttachments c (page_url p)) j)"
      using assms by (simp add: eq)
    then have "ends_in ?P ?P (for_of (attachment_step ev up ?folder) atts
                 (await_fetch ev (GetPageAttachments c (page_url p)) j))"
      by (rule for_of_ends_in[where P = ?P]) (rule attachment_step_entries)
    then have "?P (snd (for_of (attachment_step ev up ?folder) atts
                 (await_fetch ev (GetPageAttachments c (page_url p)) j)))"
      by (simp only: ends_in_same)
    then show ?thesis
      using Inr by (simp add: page_step_Some[OF Some] eq)
  qed
qed

text \<open>
  Claim C4, amended. The folder segment made from a module's name or from a page's title has
  every \<open>/\<close> and every backslash replaced by \<open>_\<close> before the entry path is formed: every
  entry appended for a module is \<open>courseId/Modules/\<close>, the sanitized module name, \<open>/\<close> and
  the display name of one of the module's fetched files; every entry appended for a page
  is \<open>courseId/Pages/\<close>, the sanitized title, \<open>/\<close> and the filename of one of the page's
  attachments. The last segment, display name or filename, is the upstream's string as it is.
\<close>

theorem folder_segments_are_sanitized:
  "CHR ''/'' \<notin> set (replace_separators s) \<and> CHR 0x5C \<notin> set (replace_separators s) \<and>
   length (replace_separators s) = length s \<and>
   (\<forall>e\<in>set (archive (snd (module_step ev up c m j))).
      e \<in> set (archive j) \<or> is_module_entry up c m (fst e)) \<and>
   (\<forall>e\<in>set (archive (snd (page_step ev up c p j))).
      e \<in> set (archive j) \<or> is_page_entry up c p (fst e))"
proof -
  have a: "CHR ''/'' \<notin> set (replace_separators s) \<and> CHR 0x5C \<notin> set (replace_separators s) \<and>
   length (replace_separators s) = length s"
    by (auto simp: replace_separators_def)
  have b: "\<forall>e\<in>set (archive (snd (module_step ev up c m j))).
      e \<in> set (archive j) \<or> is_module_entry up c m (fst e)"
    by (rule module_step_entries) simp
  have c: "\<forall>e\<in>set (archive (snd (page_step ev up c p j))).
      e \<in> set (archive j) \<or> is_page_entry up c p (fst e)"
    by (rule page_step_entries) simp
  show ?thesis using a b c by blast
qed

theorem folder_segments_are_sanitized_witness:
  "replace_separators ''Unit 1/Intro'' = ''Unit 1_Intro'' \<and>
   archive (snd (module_step quiet demo_up ''101''
      \<lparr>mod_name = Some ''Unit 1/Intro'',
        mod_items = Some [\<lparr>item_type = Some ''File'', content_id = Some 7\<rparr>]\<rparr>
      (job0 demo_sse))) =
     [(''101/Modules/Unit 1_Intro/a'' @ [CHR 0x5C] @ ''b.pdf'', ''%PDF'')] \<and>
   is_module_entry demo_up ''101''
      \<lparr>mod_name = Some ''Unit 1/Intro'',
        mod_items = Some [\<lparr>item_type = Some ''File'', content_id = Some 7\<rparr>]\<rparr>
      (''101/Modules/Unit 1_Intro/a'' @ [CHR 0x5C] @ ''b.pdf'')"
proof -
  have ar: "archive (snd (module_step quiet demo_up ''101''
      \<lparr>mod_name = Some ''Unit 1/Intro'',
        mod_items = Some [\<lparr>item_type = Some ''File'', content_id = Some 7\<rparr>]\<rparr>
      (job0 demo_sse))) =
     [(''101/Modules/Unit 1_Intro/a'' @ [CHR 0x5C] @ ''b.pdf'', ''%PDF'')]"
    by (simp add: demo_defs handler_defs job0_def)
  show ?thesis
    using folder_segments_are_sanitized[where s = "''Unit 1/Intro''" and ev = quiet
        and up = demo_up and c = "''101''" and j = "job0 demo_sse"
        and m = "\<lparr>mod_name = Some ''Unit 1/Intro'',
        mod_items = Some [\<lparr>item_type = Some ''File'', content_id = Some 7\<rparr>]\<rparr>"]
    by (simp add: ar) (simp add: replace_separators_def job0_def)
qed

text \<open>
  Claim C4 as stated fails: a file whose display name is \<open>a\b.pdf\<close> is archived under a
  path whose last segment still holds the backslash.
\<close>

theorem unsanitized_filename_counterexample:
  "download quiet demo_up (Some ''job1'') (select [''101''] [] [] []) demo_sse =
     Finalized \<lparr>jdone = 1,
       archive = [(''101/Modules/Unit 1_Intro/a'' @ [CHR 0x5C] @ ''b.pdf'', ''%PDF'')],
       fetched = [GetModules ''101'', GetFile 7, GetBody ''https://files/7''],
       sse = \<lparr>sseClients = Map.empty,
              written = [(0, Newline), (0, ProgressEvent 1 1 ''Modules for 101''), (0, DoneEvent)],
              ended = [0], opened = 1\<rparr>\<rparr>"
  by (simp add: demo_defs handler_defs)

section \<open>Order of the progress events\<close>

lemma progress_events_append [simp]:
  "progress_events (xs @ ys) = progress_events xs @ progress_events ys"
  by (induction xs rule: progress_events.induct) auto

lemma progress_invI:
  assumes "written (sse j) = written s @ ws" "DoneEvent \<notin> snd ` set ws"
    "ordered_progress tot (jdone j) ws"
  shows "progress_inv s tot j"
  using assms by (simp add: progress_inv_def job_chunks_def)

lemma written_apply_event:
  "\<exists>ns. written (apply_event s e) = written s @ ns \<and> progress_events ns = [] \<and>
        DoneEvent \<notin> snd ` set ns"
  by (cases e) (auto simp: download_events_def events_close_def)

lemma written_events:
  "\<exists>ns. written (foldl apply_event s es) = written s @ ns \<and> progress_events ns = [] \<and>
        DoneEvent \<notin> snd ` set ns"
proof (induction es arbitrary: s)
  case Nil
  then show ?case by simp
next
  case (Cons e es)
  obtain n1 where n1: "written (apply_event s e) = written s @ n1" "progress_events n1 = []"
    "DoneEvent \<notin> snd ` set n1"
    using written_apply_event by blast
  obtain n2 where n2: "written (foldl apply_event (apply_event s e) es) =
      written (apply_event s e) @ n2" "progress_events n2 = []" "DoneEvent \<notin> snd ` set n2"
    using Cons.IH by blast
  have "written (foldl apply_event s (e # es)) = written s @ (n1 @ n2)"
    using n1 n2 by simp
  moreover have "progress_events (n1 @ n2) = []" using n1 n2 by simp
  moreover have "DoneEvent \<notin> snd ` set (n1 @ n2)" using n1 n2 by auto
  ultimately show ?case by blast
qed

lemma progress_inv_await:
  assumes "progress_inv s tot j"
  shows "progress_inv s tot (await_fetch ev rq j)"
proof -
  obtain ns where ns: "written (foldl apply_event (sse j) (arrivals ev (length (fetched j)))) =
      written (sse j) @ ns" "progress_events ns = []" "DoneEvent \<notin> snd ` set ns"
    using written_events by blast
  show ?thesis
  proof (rule progress_invI[where ws = "job_chunks s j @ ns"])
    show "written (sse (await_fetch ev rq j)) = written s @ job_chunks s j @ ns"
      using assms ns by (simp add: await_fetch_def progress_inv_def)
    show "DoneEvent \<notin> snd ` set (job_chunks s j @ ns)"
      using assms ns by (auto simp: progress_inv_def)
    show "ordered_progress tot (jdone (await_fetch ev rq j)) (job_chunks s j @ ns)"
      using assms ns by (simp add: progress_inv_def ordered_progress_def await_fetch_def)
  qed
qed

lemma progress_inv_append:
  "progress_inv s tot j \<Longrightarrow> progress_inv s tot (archive_append n st j)"
  by (simp add: progress_inv_def job_chunks_def archive_append_def)

lemma progress_inv_step_ok: "step_ok ev up (progress_inv s tot) (progress_inv s tot)"
  by (simp add: step_ok_def progress_inv_await progress_inv_append)

lemma ordered_progress_mono:
  "ordered_progress tot dn ws \<Longrightarrow> dn \<le> dn' \<Longrightarrow> ordered_progress tot dn' ws"
  by (fastforce simp: ordered_progress_def)

lemma ordered_progress_snoc:
  assumes "ordered_progress tot dn ws"
  shows "ordered_progress tot (Suc dn) (ws @ [(h, ProgressEvent (Suc dn) tot m)])"
  using assms
  by (fastforce simp: ordered_progress_def sorted_wrt_append)

lemma progress_inv_progress:
  assumes "progress_inv s tot j"
  shows "progress_inv s tot (progress d tot m j)"
proof (cases "sseClients (sse j) d")
  case None
  then have "progress d tot m j = j\<lparr>jdone := jdone j + 1\<rparr>"
    by (simp add: progress_def sendProgress_def)
  then show ?thesis
    using assms ordered_progress_mono[of tot "jdone j" "job_chunks s j" "jdone j + 1"]
    by (simp add: progress_inv_def job_chunks_def)
next
  case (Some h)
  show ?thesis
  proof (rule progress_invI[where ws = "job_chunks s j @ [(h, ProgressEvent (Suc (jdone j)) tot m)]"])
    show "written (sse (progress d tot m j)) =
        written s @ job_chunks s j @ [(h, ProgressEvent (Suc (jdone j)) tot m)]"
      using assms Some by (simp add: progress_def sendProgress_def progress_inv_def)
    show "DoneEvent \<notin> snd ` set (job_chunks s j @ [(h, ProgressEvent (Suc (jdone j)) tot m)])"
      using assms by (auto simp: progress_inv_def)
    show "ordered_progress tot (jdone (progress d tot m j))
        (job_chunks s j @ [(h, ProgressEvent (Suc (jdone j)) tot m)])"
      using assms ordered_progress_snoc[of tot "jdone j" "job_chunks s j" h m]
      by (simp add: progress_inv_def progress_def)
  qed
qed

lemma progress_inv_init: "progress_inv s tot (job0 s)"
  by (simp add: progress_inv_def job_chunks_def job0_def ordered_progress_def)


lemma step_ok_conj:
  assumes "step_ok ev up P1 Q1" "step_ok ev up P2 Q2"
  shows "step_ok ev up (\<lambda>j. P1 j \<and> P2 j) (\<lambda>j. Q1 j \<and> Q2 j)"
  using assms unfolding step_ok_def by simp






lemma no_open_other:
  "e \<noteq> EventsOpen d \<Longrightarrow> sseClients s d = None \<Longrightarrow> sseClients (apply_event s e) d = None"
  by (cases e) (auto simp: download_events_def events_close_def)

lemma no_open_keeps_none:
  "EventsOpen d \<notin> set es \<Longrightarrow> sseClients s d = None \<Longrightarrow>
   sseClients (foldl apply_event s es) d = None"
  by (induction es arbitrary: s) (auto simp: no_open_other)

lemma close_gives_none:
  "EventsClose d \<in> set es \<Longrightarrow> EventsOpen d \<notin> set es \<Longrightarrow>
   sseClients (foldl apply_event s es) d = None"
proof (induction es arbitrary: s)
  case Nil
  then show ?case by simp
next
  case (Cons e es)
  show ?case
  proof (cases "e = EventsClose d")
    case True
    then have "sseClients (apply_event s e) d = None" by (simp add: events_close_def)
    then show ?thesis using Cons.prems no_open_keeps_none[of d es "apply_event s e"] by simp
  next
    case False
    then show ?thesis using Cons by simp
  qed
qed

lemma cancel_inv_step_ok:
  assumes "EventsClose d \<in> set (arrivals ev k)" "\<forall>n. EventsOpen d \<notin> set (arrivals ev n)"
  shows "step_ok ev up (cancel_inv d k) (cancel_inv d k)"
proof -
  have "cancel_inv d k (await_fetch ev rq j)" if "cancel_inv d k j" for rq j
  proof (cases "k < length (fetched j)")
    case True
    then have "sseClients (sse j) d = None" using that by (simp add: cancel_inv_def)
    then show ?thesis
      using assms(2) no_open_keeps_none[of d "arrivals ev (length (fetched j))" "sse j"]
      by (simp add: cancel_inv_def await_fetch_def)
  next
    case False
    show ?thesis
    proof (cases "k = length (fetched j)")
      case True
      then show ?thesis
        using assms close_gives_none[of d "arrivals ev k" "sse j"]
        by (simp add: cancel_inv_def await_fetch_def)
    next
      case F2: False
      then show ?thesis using False by (simp add: cancel_inv_def await_fetch_def)
    qed
  qed
  moreover have "cancel_inv d k (archive_append n st j)" if "cancel_inv d k j" for n st j
    using that by (simp add: cancel_inv_def archive_append_def)
  ultimately show ?thesis by (simp add: step_ok_def)
qed

lemma cancel_inv_progress: "cancel_inv d k j \<Longrightarrow> cancel_inv d k (progress d' tot m j)"
  by (simp add: cancel_inv_def progress_def sendProgress_def split: option.splits)

lemma finalize_written:
  "\<exists>ns. progress_events ns = [] \<and> DoneEvent \<notin> snd ` set ns \<and>
     (written (sse (finalize ev d j)) = written (sse j) @ ns \<or>
      (\<exists>c. archive_ends ev \<and>
           sseClients (foldl apply_event (sse j) (arrivals ev (length (fetched j)))) d = Some c \<and>
           written (sse (finalize ev d j)) = written (sse j) @ ns @ [(c, DoneEvent)]))"
proof -
  obtain ns where ns: "written (foldl apply_event (sse j) (arrivals ev (length (fetched j)))) =
      written (sse j) @ ns" "progress_events ns = []" "DoneEvent \<notin> snd ` set ns"
    using written_events by blast
  then show ?thesis
    by (intro exI[of _ ns]) (auto simp: finalize_def Let_def on_end_def split: option.splits)
qed

lemma finalize_ordered:
  assumes "progress_inv s tot j"
  shows "written (sse (finalize ev d j)) = written s @ job_chunks s (finalize ev d j) \<and>
     (\<exists>ws. ordered_progress tot (jdone j) ws \<and> DoneEvent \<notin> snd ` set ws \<and>
        (job_chunks s (finalize ev d j) = ws \<or>
         (\<exists>c. archive_ends ev \<and>
           sseClients (foldl apply_event (sse j) (arrivals ev (length (fetched j)))) d = Some c \<and>
           job_chunks s (finalize ev d j) = ws @ [(c, DoneEvent)])))"
proof -
  have w: "written (sse j) = written s @ job_chunks s j"
    and nd: "DoneEvent \<notin> snd ` set (job_chunks s j)"
    and op: "ordered_progress tot (jdone j) (job_chunks s j)"
    using assms by (simp_all add: progress_inv_def)
  obtain ns where ns: "progress_events ns = []" "DoneEvent \<notin> snd ` set ns"
    and alt: "written (sse (finalize ev d j)) = written (sse j) @ ns \<or>
      (\<exists>c. archive_ends ev \<and>
           sseClients (foldl apply_event (sse j) (arrivals ev (length (fetched j)))) d = Some c \<and>
           written (sse (finalize ev d j)) = written (sse j) @ ns @ [(c, DoneEvent)])"
    using finalize_written by blast
  let ?ws = "job_chunks s j @ ns"
  have o: "ordered_progress tot (jdone j) ?ws" using op ns by (simp add: ordered_progress_def)
  have n: "DoneEvent \<notin> snd ` set ?ws" using nd ns by auto
  from alt show ?thesis
  proof
    assume a: "written (sse (finalize ev d j)) = written (sse j) @ ns"
    then have "written (sse (finalize ev d j)) = written s @ ?ws" using w by simp
    then have jc: "job_chunks s (finalize ev d j) = ?ws" by (simp add: job_chunks_def)
    have "written (sse (finalize ev d j)) = written s @ job_chunks s (finalize ev d j)"
      using jc a w by simp
    then show ?thesis using o n jc by blast
  next
    assume "\<exists>c. archive_ends ev \<and>
           sseClients (foldl apply_event (sse j) (arrivals ev (length (fetched j)))) d = Some c \<and>
           written (sse (finalize ev d j)) = written (sse j) @ ns @ [(c, DoneEvent)]"
    then obtain c where c: "archive_ends ev"
      "sseClients (foldl apply_event (sse j) (arrivals ev (length (fetched j)))) d = Some c"
      "written (sse (finalize ev d j)) = written (sse j) @ ns @ [(c, DoneEvent)]" by blast
    then have "written (sse (finalize ev d j)) = written s @ (?ws @ [(c, DoneEvent)])"
      using w by simp
    then have jc: "job_chunks s (finalize ev d j) = ?ws @ [(c, DoneEvent)]"
      by (simp add: job_chunks_def)
    have "written (sse (finalize ev d j)) = written s @ job_chunks s (finalize ev d j)"
      using jc c(3) w by simp
    then show ?thesis using o n c jc by blast
  qed
qed


















lemma download_canceled:
  assumes "d \<noteq> []" "sseClients s d \<noteq> None"
    and "EventsClose d \<in> set (arrivals ev k)" "\<forall>n. EventsOpen d \<notin> set (arrivals ev n)"
  shows "case download ev up (Some d) sel s of
           Status400 \<Rightarrow> False
         | Threw e j \<Rightarrow> DoneEvent \<notin> snd ` set (job_chunks s j)
         | Finalized j \<Rightarrow>
             k \<le> length (fetched j) \<longrightarrow>
               DoneEvent \<notin> snd ` set (job_chunks s j) \<and> sseClients (sse j) d = None"
proof -
  let ?P = "\<lambda>j. progress_inv s (total_of sel) j \<and> cancel_inv d k j"
  have inv: "case download ev up (Some d) sel s of
           Status400 \<Rightarrow> False
         | Threw e j \<Rightarrow> ?P j
         | Finalized j \<Rightarrow> \<exists>j4. ?P j4 \<and> j = finalize ev d j4"
  proof (rule download_invariant[OF assms(1,2)])
    show "step_ok ev up ?P ?P"
      by (rule step_ok_conj[OF progress_inv_step_ok cancel_inv_step_ok[OF assms(3,4)]])
    show "\<And>j m. ?P j \<Longrightarrow> ?P (progress d (total_of sel) m j)"
      using progress_inv_progress cancel_inv_progress by blast
    have "cancel_inv d k (job0 s)"
      by (simp add: cancel_inv_def job0_def)
    then show "?P (job0 s)"
      using progress_inv_init by blast
  qed
  have fin: "DoneEvent \<notin> snd ` set (job_chunks s (finalize ev d j4)) \<and>
      sseClients (sse (finalize ev d j4)) d = None"
    if "?P j4" "k \<le> length (fetched j4)" for j4
  proof -
    let ?s' = "foldl apply_event (sse j4) (arrivals ev (length (fetched j4)))"
    have none: "sseClients ?s' d = None"
    proof (cases "k < length (fetched j4)")
      case True
      then have "sseClients (sse j4) d = None" using that(1) by (simp add: cancel_inv_def)
      then show ?thesis using assms(4) no_open_keeps_none by blast
    next
      case False
      then have "k = length (fetched j4)" using that(2) by simp
      then show ?thesis using assms(3,4) close_gives_none by blast
    qed
    then have fs: "sse (finalize ev d j4) = ?s'"
      by (simp add: finalize_def Let_def on_end_def)
    have "\<exists>ws. DoneEvent \<notin> snd ` set ws \<and> job_chunks s (finalize ev d j4) = ws"
      using finalize_ordered[where s = s and tot = "total_of sel" and j = j4 and ev = ev and d = d]
        that(1) none
      by auto
    then show ?thesis
      using none fs by auto
  qed
  show ?thesis
  proof (cases "download ev up (Some d) sel s")
    case Status400
    then show ?thesis using inv by simp
  next
    case (Threw e j)
    then show ?thesis using inv by (simp add: progress_inv_def)
  next
    case (Finalized j)
    then obtain j4 where j4: "?P j4" "j = finalize ev d j4" using inv by auto
    have "k \<le> length (fetched j) \<longrightarrow>
               DoneEvent \<notin> snd ` set (job_chunks s j) \<and> sseClients (sse j) d = None"
      using fin[OF j4(1)] unfolding j4(2) by (simp add: finalize_def Let_def)
    then show ?thesis by (simp only: Finalized download_result.case)
  qed
qed




section \<open>Steps that throw\<close>




section \<open>Cancellation\<close>

lemma same_result_simps [simp]:
  "same_result (r, j) (r', j') = (r = r' \<and> same_work j j')"
  by (simp add: same_result_def)

lemma same_work_await:
  "same_work j j' \<Longrightarrow> same_work (await_fetch ev rq j) (await_fetch ev' rq j')"
  by (simp add: same_work_def await_fetch_def)

lemma same_work_append:
  "same_work j j' \<Longrightarrow> same_work (archive_append n st j) (archive_append n st j')"
  by (simp add: same_work_def archive_append_def)

lemma same_work_progress:
  "same_work j j' \<Longrightarrow> same_work (progress d tot m j) (progress d' tot' m' j')"
  by (simp add: same_work_def progress_def)

lemma for_of_same:
  assumes "same_work j j'"
    and "\<And>x j j'. same_work j j' \<Longrightarrow> same_result (body x j) (body' x j')"
  shows "same_result (for_of body xs j) (for_of body' xs j')"
  using assms(1)
proof (induction xs arbitrary: j j')
  case Nil
  then show ?case by simp
next
  case (Cons x xs)
  obtain r j1 where a: "body x j = (r, j1)" by (cases "body x j")
  obtain r' j1' where b: "body' x j' = (r', j1')" by (cases "body' x j'")
  have "r = r'" "same_work j1 j1'" using assms(2)[OF Cons.prems, of x] a b by simp_all
  then show ?case using a b Cons.IH[of j1 j1'] by (cases r') simp_all
qed

lemma attachment_step_same:
  "same_work j j' \<Longrightarrow>
   same_result (attachment_step ev up folder a j) (attachment_step ev' up folder a j')"
  by (auto simp: attachment_step_def Let_def same_work_await same_work_append
      split: sum.splits option.splits)

lemma module_file_same:
  "same_work j j' \<Longrightarrow>
   same_result (module_file ev up c sm n j) (module_file ev' up c sm n j')"
  by (auto simp: module_file_def Let_def same_work_await same_work_append
      split: sum.splits option.splits)

lemma module_item_same:
  "same_work j j' \<Longrightarrow>
   same_result (module_item ev up c sm it j) (module_item ev' up c sm it j')"
  by (auto simp: module_item_def module_file_same split: option.splits)

lemma module_step_same:
  assumes "same_work j j'"
  shows "same_result (module_step ev up c m j) (module_step ev' up c m j')"
proof (cases "mod_name m = None \<or> mod_items m = None")
  case True
  then show ?thesis using assms by (simp add: module_step_None)
next
  case False
  then obtain nm items where s: "mod_name m = Some nm" "mod_items m = Some items" by auto
  show ?thesis
    unfolding module_step_Some[OF s]
    by (rule for_of_same[OF assms]) (rule module_item_same)
qed

lemma page_step_same:
  assumes "same_work j j'"
  shows "same_result (page_step ev up c p j) (page_step ev' up c p j')"
proof (cases "page_title p")
  case None
  then show ?thesis using assms by (simp add: page_step_None)
next
  case (Some title)
  note w = same_work_await[OF assms, of ev "GetPageAttachments c (page_url p)" ev']
  show ?thesis
  proof (cases "page_attachments_fetch up c (page_url p)")
    case (Inl e)
    then show ?thesis using w by (simp add: page_step_Some[OF Some])
  next
    case (Inr atts)
    have "same_result
        (for_of (attachment_step ev up (c @ ''/Pages/'' @ replace_separators title)) atts
           (await_fetch ev (GetPageAttachments c (page_url p)) j))
        (for_of (attachment_step ev' up (c @ ''/Pages/'' @ replace_separators title)) atts
           (await_fetch ev' (GetPageAttachments c (page_url p)) j'))"
      by (rule for_of_same[OF w]) (rule attachment_step_same)
    then show ?thesis
      using Inr by (simp add: page_step_Some[OF Some])
  qed
qed

lemma assignment_step_same:
  assumes "same_work j j'"
  shows "same_result (assignment_step ev up c a j) (assignment_step ev' up c a j')"
proof (cases "asg_id a")
  case None
  then show ?thesis using assms by (simp add: assignment_step_def)
next
  case (Some aid)
  note w = same_work_await[OF assms, of ev "GetSubmissions c aid" ev']
  show ?thesis
  proof (cases "submissions_fetch up c aid")
    case (Inl e)
    then show ?thesis using w Some by (simp add: assignment_step_def Let_def)
  next
    case (Inr subs)
    have "same_result
        (for_of (attachment_step ev up (c @ ''/Submissions/'' @ asg_name a)) atts
           (await_fetch ev (GetSubmissions c aid) j))
        (for_of (attachment_step ev' up (c @ ''/Submissions/'' @ asg_name a)) atts
           (await_fetch ev' (GetSubmissions c aid) j'))" for atts
      by (rule for_of_same[OF w]) (rule attachment_step_same)
    then show ?thesis
      using Inr w Some
      by (simp add: assignment_step_def Let_def split: list.splits attachments_value.splits)
  qed
qed

lemma unit_tail_same:
  assumes "same_result r r'"
  shows "same_result
     (case r of (Some e, j2) \<Rightarrow> (Some e, j2) | (None, j2) \<Rightarrow> (None, progress d tot m j2))
     (case r' of (Some e, j2) \<Rightarrow> (Some e, j2) | (None, j2) \<Rightarrow> (None, progress d tot m j2))"
  using assms by (cases r; cases r') (auto simp: same_work_progress split: option.splits)

lemma modules_unit_same:
  assumes "same_work j j'"
  shows "same_result (modules_unit ev up d tot c j) (modules_unit ev' up d tot c j')"
proof (cases "modules_fetch up c")
  case (Inl e)
  then show ?thesis using assms by (simp add: modules_unit_def Let_def same_work_await)
next
  case (Inr ms)
  have "same_result (for_of (module_step ev up c) ms (await_fetch ev (GetModules c) j))
      (for_of (module_step ev' up c) ms (await_fetch ev' (GetModules c) j'))"
    by (rule for_of_same[OF same_work_await[OF assms]]) (rule module_step_same)
  then show ?thesis
    using Inr unit_tail_same by (simp add: modules_unit_def Let_def)
qed

lemma syllabus_unit_same:
  assumes "same_work j j'"
  shows "same_result (syllabus_unit ev up d tot c j) (syllabus_unit ev' up d tot c j')"
proof (cases "syllabus_fetch up c")
  case (Inl e)
  then show ?thesis using assms by (simp add: syllabus_unit_def Let_def same_work_await)
next
  case (Inr atts)
  have "same_result
      (for_of (attachment_step ev up (c @ ''/Syllabus'')) atts (await_fetch ev (GetSyllabus c) j))
      (for_of (attachment_step ev' up (c @ ''/Syllabus'')) atts (await_fetch ev' (GetSyllabus c) j'))"
    by (rule for_of_same[OF same_work_await[OF assms]]) (rule attachment_step_same)
  then show ?thesis
    using Inr unit_tail_same by (simp add: syllabus_unit_def Let_def)
qed

lemma pages_unit_same:
  assumes "same_work j j'"
  shows "same_result (pages_unit ev up d tot c j) (pages_unit ev' up d tot c j')"
proof (cases "pages_fetch up c")
  case (Inl e)
  then show ?thesis using assms by (simp add: pages_unit_def Let_def same_work_await)
next
  case (Inr ps)
  have "same_result (for_of (page_step ev up c) ps (await_fetch ev (GetPages c) j))
      (for_of (page_step ev' up c) ps (await_fetch ev' (GetPages c) j'))"
    by (rule for_of_same[OF same_work_await[OF assms]]) (rule page_step_same)
  then show ?thesis
    using Inr unit_tail_same by (simp add: pages_unit_def Let_def)
qed

lemma submissions_unit_same:
  assumes "same_work j j'"
  shows "same_result (submissions_unit ev up d tot c j) (submissions_unit ev' up d tot c j')"
proof (cases "assignments_fetch up c")
  case (Inl e)
  then show ?thesis using assms by (simp add: submissions_unit_def Let_def same_work_await)
next
  case (Inr asgs)
  have "same_result (for_of (assignment_step ev up c) asgs (await_fetch ev (GetAssignments c) j))
      (for_of (assignment_step ev' up c) asgs (await_fetch ev' (GetAssignments c) j'))"
    by (rule for_of_same[OF same_work_await[OF assms]]) (rule assignment_step_same)
  then show ?thesis
    using Inr unit_tail_same by (simp add: submissions_unit_def Let_def)
qed

lemma download_unfold:
  assumes "d \<noteq> []" "sseClients s d \<noteq> None"
    and "for_of (modules_unit ev up d (total_of sel)) (sel_modules sel) (job0 s) = (r1, j1)"
    and "for_of (syllabus_unit ev up d (total_of sel)) (sel_syllabus sel) j1 = (r2, j2)"
    and "for_of (pages_unit ev up d (total_of sel)) (sel_pages sel) j2 = (r3, j3)"
    and "for_of (submissions_unit ev up d (total_of sel)) (sel_submissions sel) j3 = (r4, j4)"
  shows "download ev up (Some d) sel s =
      (case r1 of Some e \<Rightarrow> Threw e j1 | None \<Rightarrow>
       (case r2 of Some e \<Rightarrow> Threw e j2 | None \<Rightarrow>
        (case r3 of Some e \<Rightarrow> Threw e j3 | None \<Rightarrow>
         (case r4 of Some e \<Rightarrow> Threw e j4 | None \<Rightarrow> Finalized (finalize ev d j4)))))"
  using assms by (simp add: download_def Let_def job0_def split: option.splits)

lemma download_same_work:
  assumes v: "d \<noteq> []" "sseClients s d \<noteq> None" and v': "sseClients s' d \<noteq> None"
  shows "work_of (download ev up (Some d) sel s) = work_of (download ev' up (Some d) sel s')"
proof -
  let ?t = "total_of sel"
  obtain r1 j1 where l1: "for_of (modules_unit ev up d ?t) (sel_modules sel) (job0 s) = (r1, j1)"
    by (cases "for_of (modules_unit ev up d ?t) (sel_modules sel) (job0 s)")
  obtain r2 j2 where l2: "for_of (syllabus_unit ev up d ?t) (sel_syllabus sel) j1 = (r2, j2)"
    by (cases "for_of (syllabus_unit ev up d ?t) (sel_syllabus sel) j1")
  obtain r3 j3 where l3: "for_of (pages_unit ev up d ?t) (sel_pages sel) j2 = (r3, j3)"
    by (cases "for_of (pages_unit ev up d ?t) (sel_pages sel) j2")
  obtain r4 j4 where l4: "for_of (submissions_unit ev up d ?t) (sel_submissions sel) j3 = (r4, j4)"
    by (cases "for_of (submissions_unit ev up d ?t) (sel_submissions sel) j3")
  obtain r1' j1' where m1: "for_of (modules_unit ev' up d ?t) (sel_modules sel) (job0 s') = (r1', j1')"
    by (cases "for_of (modules_unit ev' up d ?t) (sel_modules sel) (job0 s')")
  obtain r2' j2' where m2: "for_of (syllabus_unit ev' up d ?t) (sel_syllabus sel) j1' = (r2', j2')"
    by (cases "for_of (syllabus_unit ev' up d ?t) (sel_syllabus sel) j1'")
  obtain r3' j3' where m3: "for_of (pages_unit ev' up d ?t) (sel_pages sel) j2' = (r3', j3')"
    by (cases "for_of (pages_unit ev' up d ?t) (sel_pages sel) j2'")
  obtain r4' j4' where m4: "for_of (submissions_unit ev' up d ?t) (sel_submissions sel) j3' = (r4', j4')"
    by (cases "for_of (submissions_unit ev' up d ?t) (sel_submissions sel) j3'")
  have s0: "same_work (job0 s) (job0 s')" by (simp add: same_work_def job0_def)
  have e1: "r1 = r1'" "same_work j1 j1'"
    using for_of_same[where body = "modules_unit ev up d ?t" and body' = "modules_unit ev' up d ?t"
        and xs = "sel_modules sel", OF s0 modules_unit_same] l1 m1 by simp_all
  have e2: "r2 = r2'" "same_work j2 j2'"
    using for_of_same[where body = "syllabus_unit ev up d ?t" and body' = "syllabus_unit ev' up d ?t"
        and xs = "sel_syllabus sel", OF e1(2) syllabus_unit_same] l2 m2 by simp_all
  have e3: "r3 = r3'" "same_work j3 j3'"
    using for_of_same[where body = "pages_unit ev up d ?t" and body' = "pages_unit ev' up d ?t"
        and xs = "sel_pages sel", OF e2(2) pages_unit_same] l3 m3 by simp_all
  have e4: "r4 = r4'" "same_work j4 j4'"
    using for_of_same[where body = "submissions_unit ev up d ?t"
        and body' = "submissions_unit ev' up d ?t"
        and xs = "sel_submissions sel", OF e3(2) submissions_unit_same] l4 m4 by simp_all
  have f: "same_work (finalize ev d j4) (finalize ev' d j4')"
    using e4(2) by (simp add: same_work_def finalize_def Let_def)
  show ?thesis
    unfolding download_unfold[OF v l1 l2 l3 l4] download_unfold[OF v(1) v' m1 m2 m3 m4]
    using e1 e2 e3 e4 f
    by (auto simp: same_work_def split: option.splits)
qed

text \<open>
  Claim C9, amended. The handler does not observe a cancellation: when the client's cancel
  (the download connection aborted, the event source closed) arrives during a job, the job
  issues the same upstream requests, appends the same entries and ends the same way with
  the same \<open>done\<close> as without it. The close listener has removed the channel's
  registration, so from then on the job writes no terminal event, and at its end the
  channel is unregistered.
\<close>

theorem cancellation_is_not_observed:
  assumes "d \<noteq> []" "sseClients s d \<noteq> None"
    and "set (cancel_events d) \<subseteq> set (arrivals ev k)"
    and "\<forall>n. EventsOpen d \<notin> set (arrivals ev n)"
  shows "work_of (download ev up (Some d) sel s) =
           work_of (download (ev\<lparr>arrivals := \<lambda>n. []\<rparr>) up (Some d) sel s) \<and>
         (case download ev up (Some d) sel s of
            Status400 \<Rightarrow> False
          | Threw e j \<Rightarrow> DoneEvent \<notin> snd ` set (job_chunks s j)
          | Finalized j \<Rightarrow>
              k \<le> length (fetched j) \<longrightarrow>
                DoneEvent \<notin> snd ` set (job_chunks s j) \<and> sseClients (sse j) d = None)"
proof -
  have c: "EventsClose d \<in> set (arrivals ev k)"
    using assms(3) by (simp add: cancel_events_def)
  show ?thesis
    using download_same_work[OF assms(1,2) assms(2), where ev = ev and up = up and sel = sel
        and ev' = "ev\<lparr>arrivals := \<lambda>n. []\<rparr>"]
      download_canceled[OF assms(1,2) c assms(4), where up = up and sel = sel]
    by simp
qed

theorem cancellation_is_not_observed_witness:
  "work_of (download (canceled_env 2 ''job1'') demo_up (Some ''job1'')
      (select [] [''201'', ''202'', ''203'', ''204'', ''205''] [] []) demo_sse) =
   work_of (download ((canceled_env 2 ''job1'')\<lparr>arrivals := \<lambda>n. []\<rparr>) demo_up (Some ''job1'')
      (select [] [''201'', ''202'', ''203'', ''204'', ''205''] [] []) demo_sse)"
proof -
  have v: "''job1'' \<noteq> []" "sseClients demo_sse ''job1'' \<noteq> None"
    by (simp_all add: demo_sse_def)
  have c: "set (cancel_events ''job1'') \<subseteq> set (arrivals (canceled_env 2 ''job1'') 2)"
    by (simp add: canceled_env_def)
  have n: "\<forall>n. EventsOpen ''job1'' \<notin> set (arrivals (canceled_env 2 ''job1'') n)"
    by (simp add: canceled_env_def cancel_events_def)
  show ?thesis
    using cancellation_is_not_observed[OF v c n, where up = demo_up
        and sel = "select [] [''201'', ''202'', ''203'', ''204'', ''205''] [] []"]
    by blast
qed

lemma syllabus_unit_demo:
  "c \<noteq> ''404'' \<Longrightarrow> syllabus_unit ev demo_up d tot c j =
     (None, progress d tot (''Syllabus for '' @ c) (await_fetch ev (GetSyllabus c) j))"
  by (simp add: syllabus_unit_def demo_up_def Let_def)

text \<open>
  Claim C9 as stated fails: the client cancels while the third of five units is fetched,
  and the requests of the fourth and fifth unit are issued all the same; only the first
  two progress events were written.
\<close>

theorem fetches_continue_after_abort_counterexample:
  "download (canceled_env 2 ''job1'') demo_up (Some ''job1'')
     (select [] [''201'', ''202'', ''203'', ''204'', ''205''] [] []) demo_sse =
   Finalized \<lparr>jdone = 5, archive = [],
     fetched = [GetSyllabus ''201'', GetSyllabus ''202'', GetSyllabus ''203'',
                GetSyllabus ''204'', GetSyllabus ''205''],
     sse = \<lparr>sseClients = Map.empty,
            written = [(0, Newline), (0, ProgressEvent 1 5 ''Syllabus for 201''),
                       (0, ProgressEvent 2 5 ''Syllabus for 202'')],
            ended = [], opened = 1\<rparr>\<rparr>"
proof -
  have l: "for_of (syllabus_unit (canceled_env 2 ''job1'') demo_up ''job1'' tot)
      [''201'', ''202'', ''203'', ''204'', ''205'']
      \<lparr>jdone = 0, archive = [], fetched = [], sse = demo_sse\<rparr> =
    (None, \<lparr>jdone = 5, archive = [],
     fetched = [GetSyllabus ''201'', GetSyllabus ''202'', GetSyllabus ''203'',
                GetSyllabus ''204'', GetSyllabus ''205''],
     sse = \<lparr>sseClients = Map.empty,
            written = [(0, Newline), (0, ProgressEvent 1 tot ''Syllabus for 201''),
                       (0, ProgressEvent 2 tot ''Syllabus for 202'')],
            ended = [], opened = 1\<rparr>\<rparr>)" for tot
    by (simp add: syllabus_unit_demo await_fetch_def progress_def sendProgress_def
        canceled_env_def cancel_events_def events_close_def demo_sse_def)
  have t: "total_of (select [] [''201'', ''202'', ''203'', ''204'', ''205''] [] []) = 5"
    by (simp add: total_of_def select_def)
  have v: "sseClients demo_sse ''job1'' \<noteq> None" by (simp add: demo_sse_def)
  have n: "for_of body [] j = (None, j)" for body :: "string \<Rightarrow> job \<Rightarrow> error option \<times> job" and j
    by simp
  show ?thesis
    unfolding download_def t Let_def
    by (simp add: v select_def l n del: for_of.simps)
       (simp add: finalize_def on_end_def canceled_env_def Let_def)
qed

end
